theory Spec2Isabelle
  imports Main
begin

section \<open>Bytes and character classes\<close>

text \<open>
  A Go \<^verbatim>\<open>[]byte\<close> and a Go \<^verbatim>\<open>string\<close> are both sequences of bytes, and
  \<^verbatim>\<open>string(data)\<close> copies the bytes unchanged; both are modelled as \<^typ>\<open>string\<close>
  (a list of 8-bit characters).
\<close>

definition space_chars :: "char list" where
  \<comment> \<open>Go's \<^verbatim>\<open>\s\<close>: tab, newline, form feed, carriage return, space\<close>
  "space_chars = [CHR 0x09, CHR 0x0A, CHR 0x0C, CHR 0x0D, CHR 0x20]"

definition hex_chars :: "char list" where
  \<comment> \<open>\<^verbatim>\<open>[0-9A-Fa-f]\<close>\<close>
  "hex_chars = ''0123456789ABCDEFabcdef''"

definition word_chars :: "char list" where
  \<comment> \<open>Go's \<^verbatim>\<open>\w\<close>, which decides \<^verbatim>\<open>\b\<close>: ASCII letters, digits and underscore\<close>
  "word_chars = ''0123456789ABCDEFGHIJKLMNOPQRSTUVWXYZ_abcdefghijklmnopqrstuvwxyz''"

definition is_space :: "char \<Rightarrow> bool" where
  "is_space c = (c \<in> set space_chars)"

definition is_hex :: "char \<Rightarrow> bool" where
  "is_hex c = (c \<in> set hex_chars)"

definition is_word :: "char \<Rightarrow> bool" where
  "is_word c = (c \<in> set word_chars)"

definition uppers :: "char list" where
  "uppers = ''ABCDEFGHIJKLMNOPQRSTUVWXYZ''"

definition lowers :: "char list" where
  "lowers = ''abcdefghijklmnopqrstuvwxyz''"

definition to_lower :: "char \<Rightarrow> char" where
  "to_lower c = (case map_of (zip uppers lowers) c of None \<Rightarrow> c | Some l \<Rightarrow> l)"

definition to_upper :: "char \<Rightarrow> char" where
  "to_upper c = (case map_of (zip lowers uppers) c of None \<Rightarrow> c | Some u \<Rightarrow> u)"

definition folds :: "char \<Rightarrow> string list" where
  \<comment> \<open>The byte strings a pattern character stands for under \<^verbatim>\<open>(?i)\<close>. Go folds case
      with \<^verbatim>\<open>unicode.SimpleFold\<close>: a letter matches its upper and lower case (any
      other byte is its own upper and lower case and is listed once), and the
      orbits of \<^verbatim>\<open>s\<close> and \<^verbatim>\<open>k\<close> also hold U+017F (long s, UTF-8 C5 BF) and U+212A
      (Kelvin sign, UTF-8 E2 84 AA).\<close>
  "folds c =
     List.insert [to_upper c] [[to_lower c]] @
       (if to_lower c = CHR ''s'' then [[CHR 0xC5, CHR 0xBF]]
        else if to_lower c = CHR ''k'' then [[CHR 0xE2, CHR 0x84, CHR 0xAA]]
        else [])"

section \<open>The fragment of Go's \<^verbatim>\<open>regexp\<close> package the checker uses\<close>

text \<open>
  Patterns are matched over bytes. Go matches over runes, but every pattern of the
  checker is ASCII, an ASCII byte is always a rune of its own, and the lead byte C5 of
  the one non-ASCII rune a folded pattern letter can stand for is never part of another
  rune, so a match starts and ends at the same offsets in both views. \<^verbatim>\<open>\b\<close> looks at
  the byte before and the byte after the position; a non-ASCII rune is no word
  character, and neither is any of its bytes.
\<close>

datatype rx =
    REps
  | RLit char
  | ROneOf "string list"
  | RCls "char list"
  | RDot
  | RWordB
  | RSeq rx rx
  | RAlt rx rx
  | RStar rx
  | RLazy rx

text \<open>
  A position is the byte before it (\<open>None\<close> at the start of the text) and the text
  that remains. \<open>rmatch r z\<close> lists the positions at which a match of \<open>r\<close> that starts at
  \<open>z\<close> can end, in the order a backtracking search tries them; Go's leftmost-first
  semantics chooses the first. A repetition goes round again only after its body has
  consumed input.
\<close>

type_synonym pos = "char option \<times> string"

definition at_word :: "char option \<Rightarrow> bool" where
  "at_word p = (case p of None \<Rightarrow> False | Some c \<Rightarrow> is_word c)"

definition next_byte :: "string \<Rightarrow> char option" where
  "next_byte s = (case s of [] \<Rightarrow> None | c # _ \<Rightarrow> Some c)"

function (sequential) rmatch :: "rx \<Rightarrow> pos \<Rightarrow> pos list" where
  "rmatch REps z = [z]"
| "rmatch (RLit c) (p, s) =
     (case s of [] \<Rightarrow> [] | a # as \<Rightarrow> if a = c then [(Some a, as)] else [])"
| "rmatch (ROneOf ws) (p, s) =
     concat (map (\<lambda>w. if w \<noteq> [] \<and> take (length w) s = w
                        then [(Some (last w), drop (length w) s)] else []) ws)"
| "rmatch (RCls cs) (p, s) =
     (case s of [] \<Rightarrow> [] | a # as \<Rightarrow> if a \<in> set cs then [(Some a, as)] else [])"
| "rmatch RDot (p, s) = (case s of [] \<Rightarrow> [] | a # as \<Rightarrow> [(Some a, as)])"
| "rmatch RWordB (p, s) =
     (if at_word p \<noteq> at_word (next_byte s) then [(p, s)] else [])"
| "rmatch (RSeq r1 r2) z = concat (map (rmatch r2) (rmatch r1 z))"
| "rmatch (RAlt r1 r2) z = rmatch r1 z @ rmatch r2 z"
| "rmatch (RStar r) z =
     concat (map (\<lambda>y. if length (snd y) < length (snd z) then rmatch (RStar r) y else [])
                 (rmatch r z)) @ [z]"
| "rmatch (RLazy r) z =
     z # concat (map (\<lambda>y. if length (snd y) < length (snd z) then rmatch (RLazy r) y else [])
                     (rmatch r z))"
  by pat_completeness auto
termination
  by (relation "inv_image (less_than <*lex*> less_than) (\<lambda>(r, z). (size r, length (snd z)))")
     auto

declare rmatch.simps(9,10) [simp del]

text \<open>Pattern syntax: a literal, a literal under \<^verbatim>\<open>(?i)\<close>, concatenation, \<^verbatim>\<open>+\<close>, \<^verbatim>\<open>?\<close>.\<close>

fun cat :: "rx list \<Rightarrow> rx" where
  "cat [] = REps"
| "cat (r # rs) = RSeq r (cat rs)"

definition str :: "string \<Rightarrow> rx" where
  "str s = cat (map RLit s)"

definition ci :: "char \<Rightarrow> rx" where
  \<comment> \<open>a pattern character under \<^verbatim>\<open>(?i)\<close>\<close>
  "ci c = ROneOf (folds c)"

definition istr :: "string \<Rightarrow> rx" where
  "istr s = cat (map ci s)"

definition plus :: "rx \<Rightarrow> rx" where
  "plus r = RSeq r (RStar r)"

definition opt :: "rx \<Rightarrow> rx" where
  "opt r = RAlt r REps"

definition sp :: rx where
  "sp = RCls space_chars"

definition hex :: rx where
  "hex = RCls hex_chars"

text \<open>
  The unanchored search of \<^verbatim>\<open>Regexp.FindStringIndex\<close>: the leftmost start at which the
  pattern matches, and there the first end. The result is the number of bytes before
  the match and the position after it.
\<close>

fun search :: "rx \<Rightarrow> pos \<Rightarrow> (nat \<times> pos) option" where
  "search r (p, []) = (case rmatch r (p, []) of [] \<Rightarrow> None | y # _ \<Rightarrow> Some (0, y))"
| "search r (p, a # as) =
     (case rmatch r (p, a # as) of
        [] \<Rightarrow> (case search r (Some a, as) of None \<Rightarrow> None | Some (n, y) \<Rightarrow> Some (Suc n, y))
      | y # _ \<Rightarrow> Some (0, y))"

definition MatchString :: "rx \<Rightarrow> string \<Rightarrow> bool" where
  "MatchString r s = (search r (None, s) \<noteq> None)"

text \<open>
  \<^verbatim>\<open>Regexp.ReplaceAllString\<close> and \<^verbatim>\<open>Regexp.FindAllStringIndex\<close> go from match to
  match, each search starting where the last match ended. The library treats a match of
  the empty string specially; no pattern the checker passes to these two functions
  matches the empty string (lemmas \<open>whitespaceRegex_consumes\<close>, \<open>streamRx_consumes\<close> and
  \<open>jsHexRx_consumes\<close> below), so that branch is never taken and the model stops there.
\<close>

function replaceAll :: "rx \<Rightarrow> string \<Rightarrow> pos \<Rightarrow> string" where
  "replaceAll r repl (p, s) =
     (case search r (p, s) of
        None \<Rightarrow> s
      | Some (n, (q, rest)) \<Rightarrow>
          if length rest < length s - n
          then take n s @ repl @ replaceAll r repl (q, rest)
          else s)"
  by pat_completeness auto
termination
  by (relation "measure (\<lambda>(r, repl, z). length (snd z))") auto

definition ReplaceAllString :: "rx \<Rightarrow> string \<Rightarrow> string \<Rightarrow> string" where
  "ReplaceAllString r src repl = replaceAll r repl (None, src)"

function findAll :: "rx \<Rightarrow> nat \<Rightarrow> pos \<Rightarrow> (nat \<times> nat) list" where
  "findAll r off (p, s) =
     (case search r (p, s) of
        None \<Rightarrow> []
      | Some (n, (q, rest)) \<Rightarrow>
          if length rest < length s - n
          then (off + n, off + (length s - length rest))
                 # findAll r (off + (length s - length rest)) (q, rest)
          else [])"
  by pat_completeness auto
termination
  by (relation "measure (\<lambda>(r, off, z). length (snd z))") auto

definition FindAllStringIndex :: "rx \<Rightarrow> string \<Rightarrow> (nat \<times> nat) list" where
  "FindAllStringIndex r s = findAll r 0 (None, s)"

fun bytes_Contains :: "string \<Rightarrow> string \<Rightarrow> bool" where
  "bytes_Contains [] sub = (sub = [])"
| "bytes_Contains (c # cs) sub =
     (if take (length sub) (c # cs) = sub then True else bytes_Contains cs sub)"

section \<open>pdf.go\<close>

datatype error =
    ErrMaliciousPDF
  | ErrInvalidPDFStructure
  | ErrJavaScriptDetected
  | ErrFormDetected
  | ErrExternalRefDetected
  | ErrEmbeddedFileDetected

definition whitespaceRegex :: rx where
  "whitespaceRegex = plus sp"

definition jsPatterns :: "rx list" where
  "jsPatterns =
     [cat [ci CHR ''/'', RStar sp, istr ''JavaScript''],
      cat [ci CHR ''/'', RStar sp, istr ''JS''],
      cat [ci CHR ''/'', RStar sp, istr ''OpenAction''],
      cat [istr ''app'', RStar sp, ci CHR ''.''],
      cat [istr ''eval'', RStar sp, ci CHR ''(''],
      cat [istr ''document'', RStar sp, ci CHR ''.''],
      cat [istr ''this'', RStar sp, ci CHR ''.''],
      cat [istr ''getField'', RStar sp, ci CHR ''(''],
      cat [istr ''submitForm'', RStar sp, ci CHR ''(''],
      cat [istr ''importDataObject'', RStar sp, ci CHR ''(''],
      cat [istr ''JS('', RStar sp, ci CHR ''#'', plus (cat [hex, hex, RStar hex])]]"

definition jsHexRx :: rx where
  "jsHexRx = cat [RLit CHR ''#'', cat [hex, hex], cat [hex, hex], cat [hex, hex], cat [hex, hex],
                  RStar (cat [hex, hex])]"

definition jsHexAngle :: rx where
  "jsHexAngle = cat [RLit CHR ''<'', hex, hex, hex, hex, RStar hex, RLit CHR ''>'']"

definition jsWordRegex :: rx where
  "jsWordRegex = RAlt (istr ''javascript'') (istr ''js'')"

definition formPatternsRegex :: "rx list" where
  "formPatternsRegex =
     [cat [ci CHR ''/'', RStar sp, istr ''AcroForm''],
      cat [ci CHR ''/'', RStar sp, istr ''XFA''],
      cat [ci CHR ''/'', RStar sp, istr ''Widget''],
      cat [ci CHR ''/'', RStar sp, istr ''FT'', RStar sp, ci CHR ''/'', RStar sp, istr ''Tx''],
      cat [ci CHR ''/'', RStar sp, istr ''FT'', RStar sp, ci CHR ''/'', RStar sp, istr ''Ch''],
      cat [ci CHR ''/'', RStar sp, istr ''FT'', RStar sp, ci CHR ''/'', RStar sp, istr ''Btn''],
      cat [ci CHR ''/'', RStar sp, istr ''FT'', RStar sp, ci CHR ''/'', RStar sp, istr ''Sig'']]"

definition externalRegexes :: "rx list" where
  "externalRegexes =
     [cat [ci CHR ''/'', RStar sp, istr ''GoToR''],
      cat [ci CHR ''/'', RStar sp, istr ''Launch''],
      cat [ci CHR ''/'', RStar sp, istr ''ImportData''],
      cat [ci CHR ''/'', RStar sp, istr ''SubmitForm''],
      cat [ci CHR ''/'', RStar sp, istr ''URI'', RWordB],
      cat [istr ''URI'', RStar sp, ci CHR ''(''],
      cat [RWordB, istr ''http'', opt (ci CHR ''s''), istr ''://''],
      cat [RWordB, istr ''file://''],
      cat [RWordB, istr ''ftp://'']]"

definition embeddedFilesRegex :: "rx list" where
  "embeddedFilesRegex =
     [cat [ci CHR ''/'', RStar sp, istr ''EmbeddedFile''],
      cat [ci CHR ''/'', RStar sp, istr ''FileAttachment''],
      cat [ci CHR ''/'', RStar sp, istr ''Filespec'']]"

definition streamRx :: rx where
  \<comment> \<open>compiled inside \<^verbatim>\<open>checkForJavaScript\<close>: \<^verbatim>\<open>(?is)stream\b.*?endstream\<close>\<close>
  "streamRx = cat [istr ''stream'', RWordB, RLazy RDot, istr ''endstream'']"

text \<open>The loop \<^verbatim>\<open>for _, rx := range patterns { if rx.MatchString(text) { return err } }\<close>.\<close>

fun match_any :: "rx list \<Rightarrow> string \<Rightarrow> bool" where
  "match_any [] text = False"
| "match_any (rx # rxs) text = (if MatchString rx text then True else match_any rxs text)"

text \<open>
  The loop over \<^verbatim>\<open>locs\<close>: the context of a match is the (at most) 80 bytes before its
  start.
\<close>

fun hex_context_loop :: "(nat \<times> nat) list \<Rightarrow> string \<Rightarrow> bool" where
  "hex_context_loop [] contentNoStreams = False"
| "hex_context_loop (loc # locs) contentNoStreams =
     (let start = fst loc;
          from = (if start < 80 then 0 else start - 80);
          ctx = drop from (take start contentNoStreams)
      in if MatchString jsWordRegex ctx then True
         else hex_context_loop locs contentNoStreams)"

definition checkForJavaScript :: "string \<Rightarrow> error option" where
  "checkForJavaScript content =
     (let contentNoStreams = ReplaceAllString streamRx content '' '';
          normalized = ReplaceAllString whitespaceRegex contentNoStreams '' ''
      in if match_any jsPatterns normalized then Some ErrJavaScriptDetected
         else if hex_context_loop (FindAllStringIndex jsHexRx contentNoStreams) contentNoStreams
           then Some ErrJavaScriptDetected
         else if MatchString jsHexAngle contentNoStreams \<and> MatchString jsWordRegex contentNoStreams
           then Some ErrJavaScriptDetected
         else None)"

definition checkForForms :: "string \<Rightarrow> error option" where
  "checkForForms content =
     (if match_any formPatternsRegex content then Some ErrFormDetected else None)"

definition checkForExternalReferences :: "string \<Rightarrow> error option" where
  "checkForExternalReferences content =
     (let normalized = ReplaceAllString whitespaceRegex content '' ''
      in if match_any externalRegexes normalized then Some ErrExternalRefDetected else None)"

definition checkForEmbeddedFiles :: "string \<Rightarrow> error option" where
  "checkForEmbeddedFiles content =
     (if match_any embeddedFilesRegex content then Some ErrEmbeddedFileDetected else None)"

definition Check :: "string \<Rightarrow> error option" where
  "Check data =
     (if length data = 0 then Some ErrInvalidPDFStructure
      else let limit = (if length data < 1024 then length data else 1024)
        in if \<not> bytes_Contains (take limit data) ''%PDF-'' then Some ErrInvalidPDFStructure
        else let content = data
          in case checkForJavaScript content of
               Some err \<Rightarrow> Some err
             | None \<Rightarrow>
                (case checkForForms content of
                   Some err \<Rightarrow> Some err
                 | None \<Rightarrow>
                    (case checkForExternalReferences content of
                       Some err \<Rightarrow> Some err
                     | None \<Rightarrow>
                        (case checkForEmbeddedFiles content of
                           Some err \<Rightarrow> Some err
                         | None \<Rightarrow> None))))"

section \<open>Notions used to state the properties\<close>

text \<open>
  The structure check at the head of \<^verbatim>\<open>Check\<close>, and the first error in a sequence of
  results.
\<close>

definition structure_check :: "string \<Rightarrow> error option" where
  "structure_check data =
     (if data = [] \<or> \<not> bytes_Contains (take (min 1024 (length data)) data) ''%PDF-''
      then Some ErrInvalidPDFStructure else None)"

fun first_error :: "error option list \<Rightarrow> error option" where
  "first_error [] = None"
| "first_error (None # rs) = first_error rs"
| "first_error (Some e # rs) = Some e"

text \<open>
  A document with a catalog, a page tree and one page, and nothing else: the three
  objects of the first test case of \<^verbatim>\<open>pdf_test.go\<close>, without the media box.
\<close>

definition minimal_doc :: string where
  "minimal_doc =
     ''%PDF-1.4\<newline>1 0 obj<</Type/Catalog/Pages 2 0 R>>endobj\<newline>2 0 obj<</Type/Pages/Kids[3 0 R]/Count 1>>endobj\<newline>3 0 obj<</Type/Page/Parent 2 0 R>>endobj\<newline>''"

text \<open>The byte before the position reached after reading \<open>w\<close>.\<close>

fun after :: "char option \<Rightarrow> string \<Rightarrow> char option" where
  "after p [] = p"
| "after p (c # cs) = after (Some c) cs"

text \<open>\<open>w\<close> is \<open>lit\<close> up to the case of its ASCII letters.\<close>

definition ci_eq :: "string \<Rightarrow> string \<Rightarrow> bool" where
  "ci_eq w lit = list_all2 (\<lambda>x c. x = to_upper c \<or> x = to_lower c) w lit"

text \<open>
  \<open>w\<close> is \<open>lit\<close> under Go's case folding: every character of \<open>lit\<close> is replaced by one of
  the byte strings \<open>folds\<close> gives for it. This is what a literal under \<^verbatim>\<open>(?i)\<close> matches
  (lemmas \<open>istr_sound\<close> and \<open>istr_complete\<close>); it holds whenever \<open>ci_eq w lit\<close> does.
\<close>

fun fold_eq :: "string \<Rightarrow> string \<Rightarrow> bool" where
  "fold_eq [] w = (w = [])"
| "fold_eq (c # l) w =
     list_ex (\<lambda>alt. alt \<noteq> [] \<and> take (length alt) w = alt \<and> fold_eq l (drop (length alt) w))
       (folds c)"

text \<open>
  What \<^verbatim>\<open>whitespaceRegex.ReplaceAllString(s, " ")\<close> computes (lemma \<open>collapse_correct\<close>):
  every maximal run of whitespace becomes one space.
\<close>

function collapse :: "string \<Rightarrow> string" where
  "collapse [] = []"
| "collapse (c # cs) =
     (if is_space c then CHR '' '' # collapse (dropWhile is_space cs) else c # collapse cs)"
  by pat_completeness auto
termination
  by (relation "measure length") (auto simp: le_imp_less_Suc length_dropWhile_le)

section \<open>Properties of the matcher\<close>

lemma after_append [simp]: "after p (a @ b) = after (after p a) b"
  by (induction a arbitrary: p) auto

lemma after_snoc: "after p (a @ [c]) = Some c"
  by simp

lemma rmatch_seqI:
  "y \<in> set (rmatch r1 z) \<Longrightarrow> x \<in> set (rmatch r2 y) \<Longrightarrow> x \<in> set (rmatch (RSeq r1 r2) z)"
  by auto

lemma rmatch_suffix:
  "y \<in> set (rmatch r z) \<Longrightarrow> \<exists>w. snd z = w @ snd y"
proof (induction r z arbitrary: y rule: rmatch.induct)
  case (1 z)
  then show ?case by simp
next
  case (2 c p s)
  then show ?case by (cases s) (auto split: if_splits)
next
  case (3 ws p s)
  then obtain w where "w \<in> set ws"
    and "y \<in> set (if w \<noteq> [] \<and> take (length w) s = w
                    then [(Some (last w), drop (length w) s)] else [])"
    by auto
  then have "take (length w) s = w" and "snd y = drop (length w) s"
    by (auto split: if_splits)
  then have "s = w @ snd y" by (metis append_take_drop_id)
  then show ?case by auto
next
  case (4 cs p s)
  then show ?case by (cases s) (auto split: if_splits)
next
  case (5 p s)
  then show ?case by (cases s) auto
next
  case (6 p s)
  then show ?case by (auto split: if_splits)
next
  case (7 r1 r2 z)
  from "7.prems" obtain m where m: "m \<in> set (rmatch r1 z)" and y: "y \<in> set (rmatch r2 m)"
    by auto
  from "7.IH"(1) [OF m] obtain w1 where w1: "snd z = w1 @ snd m" by blast
  from "7.IH"(2) [OF m y] obtain w2 where w2: "snd m = w2 @ snd y" by blast
  from w1 w2 have "snd z = (w1 @ w2) @ snd y" by simp
  then show ?case by blast
next
  case (8 r1 r2 z)
  from "8.prems" have "y \<in> set (rmatch r1 z) \<or> y \<in> set (rmatch r2 z)" by simp
  with "8.IH" show ?case by blast
next
  case (9 r z)
  from "9.prems" have "y = z \<or> (\<exists>m\<in>set (rmatch r z). y \<in> set (if length (snd m) < length (snd z) then rmatch (RStar r) m else []))"
    unfolding rmatch.simps(9) [of r z] by auto
  then consider "y = z"
    | m where "m \<in> set (rmatch r z)" "length (snd m) < length (snd z)" "y \<in> set (rmatch (RStar r) m)"
    by (metis empty_iff empty_set)
  then show ?case
  proof cases
    case 1
    then show ?thesis by simp
  next
    case 2
    from "9.IH"(1) [OF 2(1)] obtain w1 where w1: "snd z = w1 @ snd m" by blast
    from "9.IH"(2) [OF 2(1) 2(2) 2(3)] obtain w2 where w2: "snd m = w2 @ snd y" by blast
    from w1 w2 have "snd z = (w1 @ w2) @ snd y" by simp
    then show ?thesis by blast
  qed
next
  case (10 r z)
  from "10.prems" have "y = z \<or> (\<exists>m\<in>set (rmatch r z). y \<in> set (if length (snd m) < length (snd z) then rmatch (RLazy r) m else []))"
    unfolding rmatch.simps(10) [of r z] by auto
  then consider "y = z"
    | m where "m \<in> set (rmatch r z)" "length (snd m) < length (snd z)" "y \<in> set (rmatch (RLazy r) m)"
    by (metis empty_iff empty_set)
  then show ?case
  proof cases
    case 1
    then show ?thesis by simp
  next
    case 2
    from "10.IH"(1) [OF 2(1)] obtain w1 where w1: "snd z = w1 @ snd m" by blast
    from "10.IH"(2) [OF 2(1) 2(2) 2(3)] obtain w2 where w2: "snd m = w2 @ snd y" by blast
    from w1 w2 have "snd z = (w1 @ w2) @ snd y" by simp
    then show ?thesis by blast
  qed
qed

lemma rmatch_length: "y \<in> set (rmatch r z) \<Longrightarrow> length (snd y) \<le> length (snd z)"
  using rmatch_suffix [of y r z] by auto

lemma fold_single: "x = to_upper c \<or> x = to_lower c \<Longrightarrow> [x] \<in> set (folds c)"
  by (auto simp: folds_def)

lemma concat_mapI: "w \<in> set ws \<Longrightarrow> y \<in> set (f w) \<Longrightarrow> y \<in> set (concat (map f ws))"
  by auto

lemma fold_byteI:
  assumes "x = to_upper c \<or> x = to_lower c"
  shows "(Some x, s) \<in> set (rmatch (ci c) (p, x # s))"
proof -
  have "[x] \<in> set (folds c)" using assms by (rule fold_single)
  then show ?thesis
    unfolding ci_def rmatch.simps by (rule concat_mapI) simp
qed

lemma istr_matchI:
  "ci_eq w lit \<Longrightarrow> (after p w, s) \<in> set (rmatch (istr lit) (p, w @ s))"
  unfolding ci_eq_def istr_def
proof (induction w lit arbitrary: p rule: list_all2_induct)
  case Nil
  then show ?case by simp
next
  case (Cons x w c lit)
  have 1: "(Some x, w @ s) \<in> set (rmatch (ci c) (p, x # w @ s))"
    using Cons.hyps(1) by (rule fold_byteI)
  have 2: "(after (Some x) w, s) \<in> set (rmatch (cat (map ci lit)) (Some x, w @ s))"
    by (rule Cons.IH)
  from rmatch_seqI [OF 1 2] show ?case by simp
qed

lemma star_spaceI:
  "\<forall>c\<in>set w. is_space c \<Longrightarrow> (after p w, s) \<in> set (rmatch (RStar sp) (p, w @ s))"
proof (induction w arbitrary: p)
  case Nil
  then show ?case by (simp add: rmatch.simps(9) [of sp "(p, s)"])
next
  case (Cons x w)
  then have "(after (Some x) w, s) \<in> set (rmatch (RStar sp) (Some x, w @ s))" by simp
  moreover have "rmatch sp (p, x # w @ s) = [(Some x, w @ s)]"
    using Cons.prems by (simp add: sp_def is_space_def)
  ultimately show ?case by (simp add: rmatch.simps(9) [of sp "(p, x # w @ s)"])
qed

lemma search_complete:
  "rmatch r (after p a, b) \<noteq> [] \<Longrightarrow> search r (p, a @ b) \<noteq> None"
proof (induction a arbitrary: p)
  case Nil
  then show ?case by (cases b) (auto split: list.splits)
next
  case (Cons x a)
  then have "search r (Some x, a @ b) \<noteq> None" by simp
  then show ?case by (auto split: list.splits option.splits)
qed

lemma MatchStringI:
  "y \<in> set (rmatch r (after None a, b)) \<Longrightarrow> MatchString r (a @ b)"
  unfolding MatchString_def by (rule search_complete) auto

lemma match_anyI: "rx \<in> set rxs \<Longrightarrow> MatchString rx text \<Longrightarrow> match_any rxs text"
  by (induction rxs) auto

subsection \<open>Whitespace collapsing\<close>

lemma star_nonempty: "rmatch (RStar r) z \<noteq> []"
  by (simp add: rmatch.simps(9))

lemma star_sp_hd:
  "\<exists>ys. rmatch (RStar sp) (p, s) = (after p (takeWhile is_space s), dropWhile is_space s) # ys"
proof (induction s arbitrary: p)
  case Nil
  have "rmatch sp (p, []) = []" by (simp add: sp_def)
  then show ?case by (simp add: rmatch.simps(9) [of sp "(p, [])"])
next
  case (Cons c cs)
  show ?case
  proof (cases "is_space c")
    case True
    then have 1: "rmatch sp (p, c # cs) = [(Some c, cs)]"
      by (simp add: sp_def is_space_def)
    from Cons.IH [of "Some c"] obtain ys where
      2: "rmatch (RStar sp) (Some c, cs) = (after (Some c) (takeWhile is_space cs), dropWhile is_space cs) # ys"
      by blast
    show ?thesis
      using True by (simp add: rmatch.simps(9) [of sp "(p, c # cs)"] 1 2)
  next
    case False
    then have 1: "rmatch sp (p, c # cs) = []"
      by (simp add: sp_def is_space_def)
    show ?thesis
      using False by (simp add: rmatch.simps(9) [of sp "(p, c # cs)"] 1)
  qed
qed

lemma whitespaceRegex_match:
  "rmatch whitespaceRegex (p, []) = []"
  "\<not> is_space c \<Longrightarrow> rmatch whitespaceRegex (p, c # cs) = []"
  "is_space c \<Longrightarrow> \<exists>q ys. rmatch whitespaceRegex (p, c # cs) = (q, dropWhile is_space cs) # ys"
proof -
  show "rmatch whitespaceRegex (p, []) = []"
    by (simp add: whitespaceRegex_def plus_def sp_def)
  show "\<not> is_space c \<Longrightarrow> rmatch whitespaceRegex (p, c # cs) = []"
    by (simp add: whitespaceRegex_def plus_def sp_def is_space_def)
  assume "is_space c"
  then have 1: "rmatch sp (p, c # cs) = [(Some c, cs)]"
    by (simp add: sp_def is_space_def)
  from star_sp_hd [of "Some c" cs] obtain ys where
    "rmatch (RStar sp) (Some c, cs) = (after (Some c) (takeWhile is_space cs), dropWhile is_space cs) # ys"
    by blast
  then show "\<exists>q ys. rmatch whitespaceRegex (p, c # cs) = (q, dropWhile is_space cs) # ys"
    by (simp add: whitespaceRegex_def plus_def 1)
qed

lemma whitespaceRegex_consumes:
  "y \<in> set (rmatch whitespaceRegex z) \<Longrightarrow> length (snd y) < length (snd z)"
proof -
  assume a: "y \<in> set (rmatch whitespaceRegex z)"
  obtain p s where z: "z = (p, s)" by (cases z)
  from a z obtain m where m: "m \<in> set (rmatch sp (p, s))" and y: "y \<in> set (rmatch (RStar sp) m)"
    by (auto simp: whitespaceRegex_def plus_def)
  from m have "length (snd m) < length s"
    by (cases s) (auto simp: sp_def split: if_splits)
  with rmatch_length [OF y] z show ?thesis by simp
qed

lemma collapse_correct_pos: "replaceAll whitespaceRegex '' '' (p, s) = collapse s"
proof (induction s arbitrary: p rule: collapse.induct)
  case 1
  show ?case by (simp add: whitespaceRegex_match)
next
  case (2 c cs)
  show ?case
  proof (cases "is_space c")
    case True
    from whitespaceRegex_match(3) [OF True, of p cs] obtain q ys where
      m: "rmatch whitespaceRegex (p, c # cs) = (q, dropWhile is_space cs) # ys" by blast
    have len: "length (dropWhile is_space cs) < Suc (length cs)"
      by (simp add: le_imp_less_Suc length_dropWhile_le)
    from "2.IH"(1) [OF True, of q] True m len show ?thesis
      by simp
  next
    case False
    then have m: "rmatch whitespaceRegex (p, c # cs) = []"
      by (rule whitespaceRegex_match(2))
    have ih: "replaceAll whitespaceRegex '' '' (Some c, cs) = collapse cs"
      using "2.IH"(2) [OF False] .
    show ?thesis
    proof (cases "search whitespaceRegex (Some c, cs)")
      case None
      with ih have "collapse cs = cs" by simp
      with None m False show ?thesis by simp
    next
      case (Some a)
      obtain n q rest where a: "a = (n, (q, rest))" by (cases a) auto
      show ?thesis
      proof (cases "length rest < length cs - n")
        case True
        then have "length rest < Suc (length cs) - Suc n" by simp
        with Some a m False ih True show ?thesis by simp
      next
        case False2: False
        with Some a ih have "collapse cs = cs" by simp
        with Some a m False False2 show ?thesis by simp
      qed
    qed
  qed
qed

lemma collapse_correct: "ReplaceAllString whitespaceRegex s '' '' = collapse s"
  unfolding ReplaceAllString_def by (rule collapse_correct_pos)

lemma dropWhile_space_append:
  "\<not> is_space c \<Longrightarrow> dropWhile is_space (ds @ c # r) = dropWhile is_space ds @ c # r"
  by (induction ds) auto

lemma collapse_nonspace:
  "\<not> is_space c \<Longrightarrow> collapse (a @ c # r) = collapse a @ c # collapse r"
proof (induction a rule: collapse.induct)
  case 1
  then show ?case by simp
next
  case (2 d ds)
  show ?case
  proof (cases "is_space d")
    case True
    with 2 show ?thesis by (simp add: dropWhile_space_append)
  next
    case False
    with 2 show ?thesis by simp
  qed
qed

lemma collapse_word:
  "w \<noteq> [] \<Longrightarrow> \<forall>c\<in>set w. \<not> is_space c \<Longrightarrow> collapse (a @ w @ r) = collapse a @ w @ collapse r"
proof (induction w arbitrary: a)
  case Nil
  then show ?case by simp
next
  case (Cons c w)
  show ?case
  proof (cases "w = []")
    case True
    with Cons.prems show ?thesis by (simp add: collapse_nonspace)
  next
    case False
    from Cons.prems have c: "\<not> is_space c" and w: "\<forall>c\<in>set w. \<not> is_space c" by auto
    from Cons.IH [OF False w, of "[]"] have "collapse (w @ r) = w @ collapse r" by simp
    with collapse_nonspace [OF c, of a "w @ r"] show ?thesis by simp
  qed
qed

lemma collapse_spaces:
  "\<forall>c\<in>set ws. is_space c \<Longrightarrow> \<not> is_space c \<Longrightarrow>
   collapse (ws @ c # r) = (if ws = [] then [] else '' '') @ c # collapse r"
proof (cases ws)
  case Nil
  assume "\<not> is_space c"
  with Nil show ?thesis by simp
next
  case (Cons d ds)
  assume a: "\<forall>c\<in>set ws. is_space c" and c: "\<not> is_space c"
  from a Cons have "dropWhile is_space (ds @ c # r) = c # r"
    using c by (simp add: dropWhile_append3 dropWhile_space_append)
  with a Cons c show ?thesis by simp
qed


lemma not_word_space: "is_space c \<Longrightarrow> \<not> is_word c"
  by (auto simp: is_space_def is_word_def space_chars_def word_chars_def)


subsection \<open>Evaluating the checker on a given buffer\<close>

lemma folds_eval:
  "folds CHR ''#'' = [''#'']"
  "folds CHR ''('' = [''('']"
  "folds CHR ''.'' = [''.'']"
  "folds CHR ''/'' = [''/'']"
  "folds CHR '':'' = ['':'']"
  "folds CHR ''A'' = [''A'', ''a'']"
  "folds CHR ''B'' = [''B'', ''b'']"
  "folds CHR ''C'' = [''C'', ''c'']"
  "folds CHR ''D'' = [''D'', ''d'']"
  "folds CHR ''E'' = [''E'', ''e'']"
  "folds CHR ''F'' = [''F'', ''f'']"
  "folds CHR ''G'' = [''G'', ''g'']"
  "folds CHR ''I'' = [''I'', ''i'']"
  "folds CHR ''J'' = [''J'', ''j'']"
  "folds CHR ''L'' = [''L'', ''l'']"
  "folds CHR ''O'' = [''O'', ''o'']"
  "folds CHR ''R'' = [''R'', ''r'']"
  "folds CHR ''S'' = [''S'', ''s'', [CHR 0xC5, CHR 0xBF]]"
  "folds CHR ''T'' = [''T'', ''t'']"
  "folds CHR ''U'' = [''U'', ''u'']"
  "folds CHR ''W'' = [''W'', ''w'']"
  "folds CHR ''X'' = [''X'', ''x'']"
  "folds CHR ''a'' = [''A'', ''a'']"
  "folds CHR ''b'' = [''B'', ''b'']"
  "folds CHR ''c'' = [''C'', ''c'']"
  "folds CHR ''d'' = [''D'', ''d'']"
  "folds CHR ''e'' = [''E'', ''e'']"
  "folds CHR ''f'' = [''F'', ''f'']"
  "folds CHR ''g'' = [''G'', ''g'']"
  "folds CHR ''h'' = [''H'', ''h'']"
  "folds CHR ''i'' = [''I'', ''i'']"
  "folds CHR ''j'' = [''J'', ''j'']"
  "folds CHR ''l'' = [''L'', ''l'']"
  "folds CHR ''m'' = [''M'', ''m'']"
  "folds CHR ''n'' = [''N'', ''n'']"
  "folds CHR ''o'' = [''O'', ''o'']"
  "folds CHR ''p'' = [''P'', ''p'']"
  "folds CHR ''r'' = [''R'', ''r'']"
  "folds CHR ''s'' = [''S'', ''s'', [CHR 0xC5, CHR 0xBF]]"
  "folds CHR ''t'' = [''T'', ''t'']"
  "folds CHR ''u'' = [''U'', ''u'']"
  "folds CHR ''v'' = [''V'', ''v'']"
  "folds CHR ''x'' = [''X'', ''x'']"
  by (simp_all add: folds_def to_upper_def to_lower_def uppers_def lowers_def)

lemmas pattern_defs = istr_def ci_def folds_eval sp_def hex_def plus_def opt_def space_chars_def hex_chars_def

lemmas check_defs = Check_def checkForJavaScript_def checkForForms_def
  checkForExternalReferences_def checkForEmbeddedFiles_def ReplaceAllString_def
  FindAllStringIndex_def MatchString_def Let_def
  jsPatterns_def jsHexRx_def jsHexAngle_def jsWordRegex_def formPatternsRegex_def
  externalRegexes_def embeddedFilesRegex_def streamRx_def whitespaceRegex_def

lemmas match_defs = rmatch.simps(9,10) at_word_def next_byte_def is_word_def word_chars_def

subsection \<open>Matching a sequence of pattern items\<close>

lemma cat_consI:
  "y \<in> set (rmatch r z) \<Longrightarrow> x \<in> set (rmatch (cat rs) y) \<Longrightarrow> x \<in> set (rmatch (cat (r # rs)) z)"
  by auto

lemma cat_nilI: "z \<in> set (rmatch (cat []) z)"
  by simp



lemma wordbI: "at_word p \<noteq> at_word (next_byte s) \<Longrightarrow> (p, s) \<in> set (rmatch RWordB (p, s))"
  by simp



lemma ci_eq_all:
  "ci_eq w lit \<Longrightarrow> \<forall>c\<in>set lit. P (to_upper c) \<and> P (to_lower c) \<Longrightarrow> \<forall>x\<in>set w. P x"
  unfolding ci_eq_def
  by (induction w lit rule: list_all2_induct) auto

lemmas case_tables = to_upper_def to_lower_def uppers_def lowers_def

lemmas class_tables = is_space_def is_word_def is_hex_def space_chars_def word_chars_def hex_chars_def

lemma slash_name_match:
  assumes "\<forall>c\<in>set ws. is_space c" and "ci_eq name lit"
  shows "(after (Some CHR ''/'') (ws @ name), r)
           \<in> set (rmatch (cat [ci CHR ''/'', RStar sp, istr lit]) (p, ''/'' @ ws @ name @ r))"
proof -
  have 1: "(Some CHR ''/'', ws @ name @ r) \<in> set (rmatch (ci CHR ''/'') (p, CHR ''/'' # ws @ name @ r))"
    by (rule fold_byteI) (simp add: case_tables)
  have 2: "(after (Some CHR ''/'') ws, name @ r) \<in> set (rmatch (RStar sp) (Some CHR ''/'', ws @ name @ r))"
    using assms(1) by (rule star_spaceI)
  have 3: "(after (after (Some CHR ''/'') ws) name, r) \<in> set (rmatch (istr lit) (after (Some CHR ''/'') ws, name @ r))"
    using assms(2) by (rule istr_matchI)
  from cat_consI [OF 1 cat_consI [OF 2 cat_consI [OF 3 cat_nilI]]]
  show ?thesis by simp
qed

subsection \<open>The order of the checks\<close>

lemma Check_after_header:
  assumes "bytes_Contains (take 1024 data) ''%PDF-''"
  shows "Check data =
     (case checkForJavaScript data of Some err \<Rightarrow> Some err
      | None \<Rightarrow> (case checkForForms data of Some err \<Rightarrow> Some err
      | None \<Rightarrow> (case checkForExternalReferences data of Some err \<Rightarrow> Some err
      | None \<Rightarrow> (case checkForEmbeddedFiles data of Some err \<Rightarrow> Some err | None \<Rightarrow> None))))"
proof -
  from assms have ne: "data \<noteq> []" by auto
  have "take (if length data < 1024 then length data else 1024) data = take 1024 data"
    by simp
  with assms ne show ?thesis
    unfolding Check_def Let_def by simp
qed

subsection \<open>Letter case and the script patterns\<close>

lemma to_upper_cases: "to_upper c = c \<or> to_upper c \<in> set uppers"
proof (cases "map_of (zip lowers uppers) c")
  case None
  then show ?thesis by (simp add: to_upper_def)
next
  case (Some u)
  then have "(c, u) \<in> set (zip lowers uppers)" by (rule map_of_SomeD)
  then have "u \<in> set uppers" by (rule set_zip_rightD)
  with Some show ?thesis by (simp add: to_upper_def)
qed

lemma to_lower_cases: "to_lower c = c \<or> to_lower c \<in> set lowers"
proof (cases "map_of (zip uppers lowers) c")
  case None
  then show ?thesis by (simp add: to_lower_def)
next
  case (Some l)
  then have "(c, l) \<in> set (zip uppers lowers)" by (rule map_of_SomeD)
  then have "l \<in> set lowers" by (rule set_zip_rightD)
  with Some show ?thesis by (simp add: to_lower_def)
qed

lemma letter_not_space: "x \<in> set uppers \<or> x \<in> set lowers \<Longrightarrow> \<not> is_space x"
  by (auto simp: uppers_def lowers_def is_space_def space_chars_def)


lemma case_not_space:
  "\<not> is_space c \<Longrightarrow> x = to_upper c \<or> x = to_lower c \<Longrightarrow> \<not> is_space x"
  using to_upper_cases [of c] to_lower_cases [of c] letter_not_space [of x] by auto


lemma ci_eq_not_space:
  "ci_eq w lit \<Longrightarrow> \<forall>c\<in>set lit. \<not> is_space c \<Longrightarrow> \<forall>x\<in>set w. \<not> is_space x"
  unfolding ci_eq_def
  by (induction w lit rule: list_all2_induct) (auto dest: case_not_space)


lemma ci_eq_nonempty: "ci_eq w (c # l) \<Longrightarrow> w \<noteq> []"
  unfolding ci_eq_def by auto

lemma collapse_spaces_word:
  assumes "\<forall>c\<in>set ws. is_space c" and "w \<noteq> []" and "\<forall>c\<in>set w. \<not> is_space c"
  shows "collapse (ws @ w @ r) = (if ws = [] then [] else '' '') @ w @ collapse r"
proof -
  from assms(2) obtain c w' where w: "w = c # w'" by (cases w) auto
  with assms(3) have c: "\<not> is_space c" and w': "\<forall>c\<in>set w'. \<not> is_space c" by auto
  have "collapse (w' @ r) = w' @ collapse r"
  proof (cases "w' = []")
    case True
    then show ?thesis by simp
  next
    case False
    from collapse_word [OF False w', of "[]" r] show ?thesis by simp
  qed
  with collapse_spaces [OF assms(1) c, of "w' @ r"] w show ?thesis by simp
qed

lemma checkForJavaScript_pattern:
  assumes "rx \<in> set jsPatterns"
    and "MatchString rx (collapse (ReplaceAllString streamRx content '' ''))"
  shows "checkForJavaScript content = Some ErrJavaScriptDetected"
proof -
  from assms have "match_any jsPatterns (collapse (ReplaceAllString streamRx content '' ''))"
    by (rule match_anyI)
  then show ?thesis
    unfolding checkForJavaScript_def Let_def collapse_correct by simp
qed

lemma Check_script:
  assumes "bytes_Contains (take 1024 data) ''%PDF-''"
    and "checkForJavaScript data = Some ErrJavaScriptDetected"
  shows "Check data = Some ErrJavaScriptDetected"
  using Check_after_header [OF assms(1)] assms(2) by simp

subsection \<open>The detectors\<close>

lemma match_any_iff: "match_any rxs text \<longleftrightarrow> (\<exists>rx\<in>set rxs. MatchString rx text)"
  by (induction rxs) auto

lemma star_hexI:
  "\<forall>c\<in>set w. is_hex c \<Longrightarrow> (after p w, s) \<in> set (rmatch (RStar hex) (p, w @ s))"
proof (induction w arbitrary: p)
  case Nil
  then show ?case by (simp add: rmatch.simps(9) [of hex "(p, s)"])
next
  case (Cons x w)
  then have "(after (Some x) w, s) \<in> set (rmatch (RStar hex) (Some x, w @ s))" by simp
  moreover have "rmatch hex (p, x # w @ s) = [(Some x, w @ s)]"
    using Cons.prems by (simp add: hex_def is_hex_def)
  ultimately show ?case by (simp add: rmatch.simps(9) [of hex "(p, x # w @ s)"])
qed

lemma hexI: "is_hex x \<Longrightarrow> (Some x, s) \<in> set (rmatch hex (p, x # s))"
  by (simp add: hex_def is_hex_def)

lemma litI: "(Some c, s) \<in> set (rmatch (RLit c) (p, c # s))"
  by simp

lemma angle_matchI:
  assumes "4 \<le> length h" and "\<forall>c\<in>set h. is_hex c"
  shows "MatchString jsHexAngle (a @ ''<'' @ h @ ''>'' @ b)"
proof -
  from assms(1) obtain h1 h2 h3 h4 h' where h: "h = h1 # h2 # h3 # h4 # h'"
    by (cases h; cases "tl h"; cases "tl (tl h)"; cases "tl (tl (tl h))") auto
  with assms(2) have x: "is_hex h1" "is_hex h2" "is_hex h3" "is_hex h4"
    and r: "\<forall>c\<in>set h'. is_hex c" by auto
  let ?p = "after None a"
  note m = cat_consI [OF litI [of "CHR ''<''" _ ?p]
      cat_consI [OF hexI [OF x(1)] cat_consI [OF hexI [OF x(2)] cat_consI [OF hexI [OF x(3)]
      cat_consI [OF hexI [OF x(4)] cat_consI [OF star_hexI [OF r]
      cat_consI [OF litI [of "CHR ''>''" b] cat_nilI]]]]]]]
  have "MatchString jsHexAngle (a @ CHR ''<'' # h1 # h2 # h3 # h4 # h' @ CHR ''>'' # b)"
    unfolding jsHexAngle_def by (rule MatchStringI) (rule m)
  with h show ?thesis by simp
qed

lemma word_matchI:
  assumes "ci_eq w ''javascript'' \<or> ci_eq w ''js''"
  shows "MatchString jsWordRegex (u @ w @ v)"
proof -
  from assms have "(after (after None u) w, v) \<in> set (rmatch jsWordRegex (after None u, w @ v))"
    unfolding jsWordRegex_def by (auto intro: istr_matchI)
  then show ?thesis by (rule MatchStringI)
qed

lemma checkForJavaScript_eq:
  "checkForJavaScript content =
     (if match_any jsPatterns
           (ReplaceAllString whitespaceRegex (ReplaceAllString streamRx content '' '') '' '')
        \<or> hex_context_loop (FindAllStringIndex jsHexRx (ReplaceAllString streamRx content '' ''))
             (ReplaceAllString streamRx content '' '')
        \<or> (MatchString jsHexAngle (ReplaceAllString streamRx content '' '')
             \<and> MatchString jsWordRegex (ReplaceAllString streamRx content '' ''))
      then Some ErrJavaScriptDetected else None)"
  unfolding checkForJavaScript_def Let_def by simp

lemma detector_kinds:
  "checkForJavaScript data = None \<or> checkForJavaScript data = Some ErrJavaScriptDetected"
  "checkForForms data = None \<or> checkForForms data = Some ErrFormDetected"
  "checkForExternalReferences data = None
     \<or> checkForExternalReferences data = Some ErrExternalRefDetected"
  "checkForEmbeddedFiles data = None \<or> checkForEmbeddedFiles data = Some ErrEmbeddedFileDetected"
  unfolding checkForJavaScript_eq checkForForms_def checkForExternalReferences_def
    checkForEmbeddedFiles_def Let_def by simp_all

lemma Check_first_error:
  "Check data = first_error [structure_check data, checkForJavaScript data, checkForForms data,
     checkForExternalReferences data, checkForEmbeddedFiles data]"
proof -
  have lim: "(if length data < 1024 then length data else 1024) = min 1024 (length data)"
    by simp
  show ?thesis
    unfolding Check_def Let_def lim structure_check_def
    by (simp split: option.splits)
qed

subsection \<open>What a match tells about the text\<close>

lemma search_Some:
  "search r (p, s) = Some (n, y) \<Longrightarrow>
     n \<le> length s \<and> (\<exists>ys. rmatch r (after p (take n s), drop n s) = y # ys) \<and>
     (\<forall>i<n. rmatch r (after p (take i s), drop i s) = [])"
proof (induction s arbitrary: p n)
  case Nil
  then show ?case by (auto split: list.splits)
next
  case (Cons a as)
  show ?case
  proof (cases "rmatch r (p, a # as)")
    case Nil
    with Cons.prems obtain n' where s: "search r (Some a, as) = Some (n', y)" and n: "n = Suc n'"
      by (auto split: option.splits)
    from Cons.IH [OF s] have ih: "n' \<le> length as"
      "\<exists>ys. rmatch r (after (Some a) (take n' as), drop n' as) = y # ys"
      "\<forall>i<n'. rmatch r (after (Some a) (take i as), drop i as) = []" by auto
    have "rmatch r (after p (take i (a # as)), drop i (a # as)) = []" if "i < n" for i
    proof (cases i)
      case 0
      with Nil show ?thesis by simp
    next
      case (Suc j)
      with that n have "j < n'" by simp
      with ih(3) Suc show ?thesis by simp
    qed
    with ih(1,2) n show ?thesis by simp
  next
    case (Cons y' ys)
    with Cons.prems show ?thesis by auto
  qed
qed

lemma search_None:
  "search r (p, s) = None \<Longrightarrow> i \<le> length s \<Longrightarrow> rmatch r (after p (take i s), drop i s) = []"
proof (induction s arbitrary: p i)
  case Nil
  then show ?case by (auto split: list.splits)
next
  case (Cons a as)
  from Cons.prems(1) have 0: "rmatch r (p, a # as) = []" and s: "search r (Some a, as) = None"
    by (auto split: list.splits option.splits)
  show ?case
  proof (cases i)
    case 0
    with \<open>rmatch r (p, a # as) = []\<close> show ?thesis by simp
  next
    case (Suc j)
    with Cons.prems(2) have "j \<le> length as" by simp
    from Cons.IH [OF s this] Suc show ?thesis by simp
  qed
qed


lemma MatchString_iff:
  "MatchString r s \<longleftrightarrow> (\<exists>u v. s = u @ v \<and> rmatch r (after None u, v) \<noteq> [])"
proof
  assume "MatchString r s"
  then obtain n y where "search r (None, s) = Some (n, y)"
    unfolding MatchString_def by auto
  from search_Some [OF this] have "rmatch r (after None (take n s), drop n s) \<noteq> []" by auto
  moreover have "s = take n s @ drop n s" by simp
  ultimately show "\<exists>u v. s = u @ v \<and> rmatch r (after None u, v) \<noteq> []" by blast
next
  assume "\<exists>u v. s = u @ v \<and> rmatch r (after None u, v) \<noteq> []"
  then obtain u v where "s = u @ v" and "rmatch r (after None u, v) \<noteq> []" by blast
  then show "MatchString r s"
    unfolding MatchString_def using search_complete [of r None u v] by simp
qed

lemma seqD:
  "y \<in> set (rmatch (RSeq r1 r2) z) \<Longrightarrow> \<exists>m\<in>set (rmatch r1 z). y \<in> set (rmatch r2 m)"
  by auto

lemma catD:
  "y \<in> set (rmatch (cat (r # rs)) z) \<Longrightarrow> \<exists>m\<in>set (rmatch r z). y \<in> set (rmatch (cat rs) m)"
  by auto

lemma litD: "y \<in> set (rmatch (RLit c) (p, s)) \<Longrightarrow> s = c # snd y"
  by (cases s) (auto split: if_splits)

lemma clsD: "y \<in> set (rmatch (RCls cs) (p, s)) \<Longrightarrow> \<exists>x. s = x # snd y \<and> x \<in> set cs"
  by (cases s) (auto split: if_splits)

lemma hexD: "y \<in> set (rmatch hex (p, s)) \<Longrightarrow> \<exists>x. s = x # snd y \<and> is_hex x"
  unfolding hex_def is_hex_def by (rule clsD)

lemma oneofD:
  "y \<in> set (rmatch (ROneOf ws) (p, s)) \<Longrightarrow>
     \<exists>w\<in>set ws. w \<noteq> [] \<and> take (length w) s = w \<and> snd y = drop (length w) s"
  by (auto split: if_splits)

lemma star_clsD:
  "y \<in> set (rmatch (RStar (RCls cs)) (p, s)) \<Longrightarrow> \<exists>w. s = w @ snd y \<and> set w \<subseteq> set cs"
proof (induction s arbitrary: p)
  case Nil
  then show ?case by (simp add: rmatch.simps(9) [of _ "(p, [])"])
next
  case (Cons x s)
  from Cons.prems have "y = (p, x # s) \<or> (x \<in> set cs \<and> y \<in> set (rmatch (RStar (RCls cs)) (Some x, s)))"
    by (auto simp: rmatch.simps(9) [of _ "(p, x # s)"] split: if_splits)
  then show ?case
  proof
    assume "y = (p, x # s)"
    then have "x # s = [] @ snd y \<and> set [] \<subseteq> set cs" by simp
    then show ?thesis by blast
  next
    assume a: "x \<in> set cs \<and> y \<in> set (rmatch (RStar (RCls cs)) (Some x, s))"
    with Cons.IH obtain w where "s = w @ snd y" and "set w \<subseteq> set cs" by blast
    with a have "x # s = (x # w) @ snd y \<and> set (x # w) \<subseteq> set cs" by simp
    then show ?thesis by blast
  qed
qed

lemma star_hexD:
  "y \<in> set (rmatch (RStar hex) (p, s)) \<Longrightarrow> \<exists>w. s = w @ snd y \<and> (\<forall>c\<in>set w. is_hex c)"
  unfolding hex_def is_hex_def by (drule star_clsD) auto

lemma istr_sound:
  "y \<in> set (rmatch (istr lit) (p, s)) \<Longrightarrow> \<exists>w. s = w @ snd y \<and> fold_eq lit w"
proof (induction lit arbitrary: p s)
  case Nil
  then show ?case by (simp add: istr_def)
next
  case (Cons c l)
  from Cons.prems have "y \<in> set (rmatch (RSeq (ROneOf (folds c)) (istr l)) (p, s))"
    by (simp add: istr_def ci_def)
  from seqD [OF this] obtain m where m: "m \<in> set (rmatch (ROneOf (folds c)) (p, s))"
    and y: "y \<in> set (rmatch (istr l) m)" by blast
  from oneofD [OF m] obtain alt where alt: "alt \<in> set (folds c)" "alt \<noteq> []"
    "take (length alt) s = alt" "snd m = drop (length alt) s" by blast
  from y have "y \<in> set (rmatch (istr l) (fst m, snd m))" by simp
  from Cons.IH [OF this] obtain w where w: "snd m = w @ snd y" "fold_eq l w" by blast
  from alt(3,4) w(1) have s: "s = (alt @ w) @ snd y"
    by (metis append.assoc append_take_drop_id)
  from alt w(2) have "fold_eq (c # l) (alt @ w)"
    by (auto simp: list_ex_iff)
  with s show ?case by blast
qed

lemma istr_complete:
  "fold_eq lit w \<Longrightarrow> \<exists>q. (q, s) \<in> set (rmatch (istr lit) (p, w @ s))"
proof (induction lit arbitrary: p w)
  case Nil
  then show ?case by (simp add: istr_def)
next
  case (Cons c l)
  from Cons.prems obtain alt where alt: "alt \<in> set (folds c)" "alt \<noteq> []"
    "take (length alt) w = alt" "fold_eq l (drop (length alt) w)"
    by (auto simp: list_ex_iff)
  let ?w' = "drop (length alt) w"
  from alt(3) have w: "w = alt @ ?w'" by (metis append_take_drop_id)
  from Cons.IH [OF alt(4)] obtain q where
    q: "(q, s) \<in> set (rmatch (istr l) (Some (last alt), ?w' @ s))" by blast
  from alt(2) have "(Some (last alt), ?w' @ s)
      \<in> set (if alt \<noteq> [] \<and> take (length alt) (alt @ ?w' @ s) = alt
              then [(Some (last alt), drop (length alt) (alt @ ?w' @ s))] else [])"
    by simp
  with alt(1) have m: "(Some (last alt), ?w' @ s) \<in> set (rmatch (ROneOf (folds c)) (p, alt @ ?w' @ s))"
    unfolding rmatch.simps by (rule concat_mapI)
  from m q have "(q, s) \<in> set (rmatch (RSeq (ROneOf (folds c)) (istr l)) (p, alt @ ?w' @ s))"
    by (rule rmatch_seqI)
  moreover have "alt @ ?w' @ s = w @ s" using w by (metis append.assoc)
  ultimately have "(q, s) \<in> set (rmatch (istr (c # l)) (p, w @ s))"
    by (simp add: istr_def ci_def)
  then show ?case by blast
qed

lemma ci_eq_fold_eq: "ci_eq w lit \<Longrightarrow> fold_eq lit w"
  unfolding ci_eq_def
proof (induction w lit rule: list_all2_induct)
  case Nil
  then show ?case by simp
next
  case (Cons x w c lit)
  from Cons.hyps(1) have "[x] \<in> set (folds c)" by (rule fold_single)
  with Cons.IH show ?case by (auto simp: list_ex_iff intro!: bexI [of _ "[x]"])
qed

subsection \<open>The two patterns of the angle-bracket heuristic, read on the text\<close>

lemma litD': "y \<in> set (rmatch (RLit c) z) \<Longrightarrow> snd z = c # snd y"
  using litD [of y c "fst z" "snd z"] by simp

lemma hexD': "y \<in> set (rmatch hex z) \<Longrightarrow> \<exists>x. snd z = x # snd y \<and> is_hex x"
  using hexD [of y "fst z" "snd z"] by simp

lemma star_hexD':
  "y \<in> set (rmatch (RStar hex) z) \<Longrightarrow> \<exists>w. snd z = w @ snd y \<and> (\<forall>c\<in>set w. is_hex c)"
  using star_hexD [of y "fst z" "snd z"] by simp

lemma word_match_iff:
  "MatchString jsWordRegex t \<longleftrightarrow>
     (\<exists>u w v. t = u @ w @ v \<and> (fold_eq ''javascript'' w \<or> fold_eq ''js'' w))"
proof
  assume "MatchString jsWordRegex t"
  then obtain u v' where t: "t = u @ v'" and "rmatch jsWordRegex (after None u, v') \<noteq> []"
    unfolding MatchString_iff by blast
  then obtain y where "y \<in> set (rmatch jsWordRegex (after None u, v'))"
    by (cases "rmatch jsWordRegex (after None u, v')") auto
  then have "y \<in> set (rmatch (istr ''javascript'') (after None u, v'))
      \<or> y \<in> set (rmatch (istr ''js'') (after None u, v'))"
    unfolding jsWordRegex_def by simp
  then obtain w where "v' = w @ snd y" and "fold_eq ''javascript'' w \<or> fold_eq ''js'' w"
    using istr_sound by blast
  with t show "\<exists>u w v. t = u @ w @ v \<and> (fold_eq ''javascript'' w \<or> fold_eq ''js'' w)"
    by blast
next
  assume "\<exists>u w v. t = u @ w @ v \<and> (fold_eq ''javascript'' w \<or> fold_eq ''js'' w)"
  then obtain u w v where t: "t = u @ w @ v"
    and w: "fold_eq ''javascript'' w \<or> fold_eq ''js'' w" by blast
  from w have "\<exists>q. (q, v) \<in> set (rmatch jsWordRegex (after None u, w @ v))"
    unfolding jsWordRegex_def
    using istr_complete [of "''javascript''" w v "after None u"]
      istr_complete [of "''js''" w v "after None u"] by auto
  then have "rmatch jsWordRegex (after None u, w @ v) \<noteq> []" by auto
  with t show "MatchString jsWordRegex t" unfolding MatchString_iff by blast
qed

lemma angle_match_iff:
  "MatchString jsHexAngle t \<longleftrightarrow>
     (\<exists>a h b. t = a @ ''<'' @ h @ ''>'' @ b \<and> 4 \<le> length h \<and> (\<forall>c\<in>set h. is_hex c))"
proof
  assume "MatchString jsHexAngle t"
  then obtain u v where t: "t = u @ v" and "rmatch jsHexAngle (after None u, v) \<noteq> []"
    unfolding MatchString_iff by blast
  then obtain y where "y \<in> set (rmatch jsHexAngle (after None u, v))"
    by (cases "rmatch jsHexAngle (after None u, v)") auto
  then have y: "y \<in> set (rmatch (cat [RLit CHR ''<'', hex, hex, hex, hex, RStar hex, RLit CHR ''>''])
      (after None u, v))"
    unfolding jsHexAngle_def .
  from catD [OF y] obtain m1 where m1: "m1 \<in> set (rmatch (RLit CHR ''<'') (after None u, v))"
    and y1: "y \<in> set (rmatch (cat [hex, hex, hex, hex, RStar hex, RLit CHR ''>'']) m1)" by blast
  from catD [OF y1] obtain m2 where m2: "m2 \<in> set (rmatch hex m1)"
    and y2: "y \<in> set (rmatch (cat [hex, hex, hex, RStar hex, RLit CHR ''>'']) m2)" by blast
  from catD [OF y2] obtain m3 where m3: "m3 \<in> set (rmatch hex m2)"
    and y3: "y \<in> set (rmatch (cat [hex, hex, RStar hex, RLit CHR ''>'']) m3)" by blast
  from catD [OF y3] obtain m4 where m4: "m4 \<in> set (rmatch hex m3)"
    and y4: "y \<in> set (rmatch (cat [hex, RStar hex, RLit CHR ''>'']) m4)" by blast
  from catD [OF y4] obtain m5 where m5: "m5 \<in> set (rmatch hex m4)"
    and y5: "y \<in> set (rmatch (cat [RStar hex, RLit CHR ''>'']) m5)" by blast
  from catD [OF y5] obtain m6 where m6: "m6 \<in> set (rmatch (RStar hex) m5)"
    and y6: "y \<in> set (rmatch (cat [RLit CHR ''>'']) m6)" by blast
  from catD [OF y6] obtain m7 where m7: "m7 \<in> set (rmatch (RLit CHR ''>'') m6)" by blast
  from litD' [OF m1] have 1: "v = CHR ''<'' # snd m1" by simp
  from hexD' [OF m2] obtain x1 where 2: "snd m1 = x1 # snd m2" "is_hex x1" by blast
  from hexD' [OF m3] obtain x2 where 3: "snd m2 = x2 # snd m3" "is_hex x2" by blast
  from hexD' [OF m4] obtain x3 where 4: "snd m3 = x3 # snd m4" "is_hex x3" by blast
  from hexD' [OF m5] obtain x4 where 5: "snd m4 = x4 # snd m5" "is_hex x4" by blast
  from star_hexD' [OF m6] obtain w where 6: "snd m5 = w @ snd m6" "\<forall>c\<in>set w. is_hex c" by blast
  from litD' [OF m7] have 7: "snd m6 = CHR ''>'' # snd m7" .
  let ?h = "x1 # x2 # x3 # x4 # w"
  from t 1 2 3 4 5 6 7 have "t = u @ ''<'' @ ?h @ ''>'' @ snd m7" by simp
  moreover have "4 \<le> length ?h" by simp
  moreover from 2 3 4 5 6 have "\<forall>c\<in>set ?h. is_hex c" by simp
  ultimately show "\<exists>a h b. t = a @ ''<'' @ h @ ''>'' @ b \<and> 4 \<le> length h \<and> (\<forall>c\<in>set h. is_hex c)"
    by blast
next
  assume "\<exists>a h b. t = a @ ''<'' @ h @ ''>'' @ b \<and> 4 \<le> length h \<and> (\<forall>c\<in>set h. is_hex c)"
  then show "MatchString jsHexAngle t" using angle_matchI by blast
qed

subsection \<open>Stream stripping\<close>



lemma concat_map_REps: "concat (map (rmatch REps) xs) = xs"
  by (induction xs) auto


lemma rmatch_cat_single: "rmatch (cat [r]) z = rmatch r z"
  by (simp add: concat_map_REps)












subsection \<open>The hex-escape pattern and its matches\<close>

lemma pairD:
  "y \<in> set (rmatch (cat [hex, hex]) z) \<Longrightarrow> \<exists>a b. snd z = a # b # snd y \<and> is_hex a \<and> is_hex b"
proof -
  assume y: "y \<in> set (rmatch (cat [hex, hex]) z)"
  from catD [OF y] obtain m1 where m1: "m1 \<in> set (rmatch hex z)"
    and y1: "y \<in> set (rmatch (cat [hex]) m1)" by blast
  from catD [OF y1] obtain m2 where m2: "m2 \<in> set (rmatch hex m1)"
    and y2: "y \<in> set (rmatch (cat []) m2)" by blast
  from y2 have "y = m2" by simp
  with hexD' [OF m1] hexD' [OF m2] show ?thesis by auto
qed

lemma star_pairD:
  "y \<in> set (rmatch (RStar (cat [hex, hex])) z) \<Longrightarrow>
     \<exists>w. snd z = w @ snd y \<and> (\<forall>c\<in>set w. is_hex c)"
proof (induction "length (snd z)" arbitrary: z rule: less_induct)
  case less
  from less.prems have "y = z \<or> (\<exists>m\<in>set (rmatch (cat [hex, hex]) z).
      y \<in> set (if length (snd m) < length (snd z) then rmatch (RStar (cat [hex, hex])) m else []))"
    unfolding rmatch.simps(9) [of "cat [hex, hex]" z] by auto
  then show ?case
  proof
    assume "y = z"
    then have "snd z = [] @ snd y \<and> (\<forall>c\<in>set []. is_hex c)" by simp
    then show ?thesis by blast
  next
    assume "\<exists>m\<in>set (rmatch (cat [hex, hex]) z).
      y \<in> set (if length (snd m) < length (snd z) then rmatch (RStar (cat [hex, hex])) m else [])"
    then obtain m where m: "m \<in> set (rmatch (cat [hex, hex]) z)"
      and l: "length (snd m) < length (snd z)" and y: "y \<in> set (rmatch (RStar (cat [hex, hex])) m)"
      by (metis empty_iff empty_set)
    from pairD [OF m] obtain a b where ab: "snd z = a # b # snd m" "is_hex a" "is_hex b" by blast
    from less.hyps [OF l y] obtain w where w: "snd m = w @ snd y" "\<forall>c\<in>set w. is_hex c" by blast
    from ab w have "snd z = (a # b # w) @ snd y \<and> (\<forall>c\<in>set (a # b # w). is_hex c)" by simp
    then show ?thesis by blast
  qed
qed

lemma jsHexRx_shape:
  assumes "y \<in> set (rmatch jsHexRx z)"
  shows "\<exists>w. snd z = ''#'' @ w @ snd y \<and> 8 \<le> length w \<and> (\<forall>c\<in>set w. is_hex c)"
proof -
  from assms have y: "y \<in> set (rmatch (cat [RLit CHR ''#'', cat [hex, hex], cat [hex, hex],
      cat [hex, hex], cat [hex, hex], RStar (cat [hex, hex])]) z)"
    unfolding jsHexRx_def .
  from catD [OF y] obtain m0 where m0: "m0 \<in> set (rmatch (RLit CHR ''#'') z)"
    and y0: "y \<in> set (rmatch (cat [cat [hex, hex], cat [hex, hex],
      cat [hex, hex], cat [hex, hex], RStar (cat [hex, hex])]) m0)" by blast
  from catD [OF y0] obtain m1 where m1: "m1 \<in> set (rmatch (cat [hex, hex]) m0)"
    and y1: "y \<in> set (rmatch (cat [cat [hex, hex],
      cat [hex, hex], cat [hex, hex], RStar (cat [hex, hex])]) m1)" by blast
  from catD [OF y1] obtain m2 where m2: "m2 \<in> set (rmatch (cat [hex, hex]) m1)"
    and y2: "y \<in> set (rmatch (cat [cat [hex, hex], cat [hex, hex], RStar (cat [hex, hex])]) m2)"
    by blast
  from catD [OF y2] obtain m3 where m3: "m3 \<in> set (rmatch (cat [hex, hex]) m2)"
    and y3: "y \<in> set (rmatch (cat [cat [hex, hex], RStar (cat [hex, hex])]) m3)" by blast
  from catD [OF y3] obtain m4 where m4: "m4 \<in> set (rmatch (cat [hex, hex]) m3)"
    and y4: "y \<in> set (rmatch (cat [RStar (cat [hex, hex])]) m4)" by blast
  from catD [OF y4] obtain m5 where m5: "m5 \<in> set (rmatch (RStar (cat [hex, hex])) m4)"
    and y5: "y \<in> set (rmatch (cat []) m5)" by blast
  from y5 have e: "y = m5" by simp
  from litD' [OF m0] have 0: "snd z = CHR ''#'' # snd m0" .
  from pairD [OF m1] obtain a1 b1 where 1: "snd m0 = a1 # b1 # snd m1" "is_hex a1" "is_hex b1" by blast
  from pairD [OF m2] obtain a2 b2 where 2: "snd m1 = a2 # b2 # snd m2" "is_hex a2" "is_hex b2" by blast
  from pairD [OF m3] obtain a3 b3 where 3: "snd m2 = a3 # b3 # snd m3" "is_hex a3" "is_hex b3" by blast
  from pairD [OF m4] obtain a4 b4 where 4: "snd m3 = a4 # b4 # snd m4" "is_hex a4" "is_hex b4" by blast
  from star_pairD [OF m5] obtain w where 5: "snd m4 = w @ snd m5" "\<forall>c\<in>set w. is_hex c" by blast
  let ?w = "a1 # b1 # a2 # b2 # a3 # b3 # a4 # b4 # w"
  from 0 1 2 3 4 5 e have "snd z = ''#'' @ ?w @ snd y" by simp
  moreover have "8 \<le> length ?w" by simp
  moreover from 1 2 3 4 5 have "\<forall>c\<in>set ?w. is_hex c" by simp
  ultimately show ?thesis by blast
qed

lemma jsHexRx_consumes:
  "y \<in> set (rmatch jsHexRx z) \<Longrightarrow> length (snd y) < length (snd z)"
  by (drule jsHexRx_shape) auto

lemma star_selfI: "z \<in> set (rmatch (RStar r) z)"
  unfolding rmatch.simps(9) [of r z] by simp

lemma pairI: "is_hex a \<Longrightarrow> is_hex b \<Longrightarrow> (Some b, s) \<in> set (rmatch (cat [hex, hex]) (p, a # b # s))"
  by (simp add: hex_def is_hex_def)

lemma jsHexRx_matches:
  assumes "8 \<le> length h" and "\<forall>c\<in>set (take 8 h). is_hex c"
  shows "rmatch jsHexRx (p, ''#'' @ h @ r) \<noteq> []"
proof -
  from assms(1) have "Suc (Suc (Suc (Suc (Suc (Suc (Suc (Suc 0))))))) \<le> length h"
    by simp
  then obtain a1 b1 a2 b2 a3 b3 a4 b4 h' where
    h: "h = a1 # b1 # a2 # b2 # a3 # b3 # a4 # b4 # h'"
    unfolding Suc_le_length_iff by blast
  with assms(2) have x: "is_hex a1" "is_hex b1" "is_hex a2" "is_hex b2"
    "is_hex a3" "is_hex b3" "is_hex a4" "is_hex b4" by auto
  note m = cat_consI [OF litI [of "CHR ''#''" _ p]
      cat_consI [OF pairI [OF x(1,2)] cat_consI [OF pairI [OF x(3,4)]
      cat_consI [OF pairI [OF x(5,6)] cat_consI [OF pairI [OF x(7,8)]
      cat_consI [OF star_selfI cat_nilI]]]]]]
  have "(Some b4, h' @ r) \<in> set (rmatch jsHexRx
      (p, CHR ''#'' # a1 # b1 # a2 # b2 # a3 # b3 # a4 # b4 # h' @ r))"
    unfolding jsHexRx_def by (rule m)
  with h show ?thesis by auto
qed

subsection \<open>Every hex escape is among the matches the script detector visits\<close>

lemma not_hex_hash: "\<not> is_hex CHR ''#''"
  by (simp add: is_hex_def hex_chars_def)

lemma hex_run_stops:
  assumes "w @ rest = a @ ''#'' @ x" and "\<forall>c\<in>set w. is_hex c"
  shows "\<exists>a'. a = w @ a' \<and> rest = a' @ ''#'' @ x"
proof -
  from assms(1) obtain us where "(w = a @ us \<and> us @ rest = ''#'' @ x) \<or> (w @ us = a \<and> rest = us @ ''#'' @ x)"
    unfolding append_eq_append_conv2 by blast
  then show ?thesis
  proof
    assume c: "w = a @ us \<and> us @ rest = ''#'' @ x"
    show ?thesis
    proof (cases us)
      case Nil
      with c show ?thesis by simp
    next
      case (Cons u us')
      with c have "u = CHR ''#''" by simp
      with c Cons have "CHR ''#'' \<in> set w" by simp
      with assms(2) not_hex_hash show ?thesis by blast
    qed
  next
    assume "w @ us = a \<and> rest = us @ ''#'' @ x"
    then show ?thesis by blast
  qed
qed

lemma findAll_hex_covers:
  assumes "s = a @ ''#'' @ h @ r" and "8 \<le> length h" and "\<forall>c\<in>set (take 8 h). is_hex c"
  shows "\<exists>e. (off + length a, e) \<in> set (findAll jsHexRx off (p, s))"
  using assms(1)
proof (induction "length s" arbitrary: s a off p rule: less_induct)
  case less
  have here: "rmatch jsHexRx (after p a, ''#'' @ h @ r) \<noteq> []"
    using assms(2,3) by (rule jsHexRx_matches)
  with less.prems have "search jsHexRx (p, s) \<noteq> None"
    using search_complete [of jsHexRx p a "''#'' @ h @ r"] by simp
  then obtain n q rest where sr: "search jsHexRx (p, s) = Some (n, (q, rest))" by auto
  from search_Some [OF sr] obtain ys where n: "n \<le> length s"
    and at: "rmatch jsHexRx (after p (take n s), drop n s) = (q, rest) # ys"
    and before: "\<forall>i<n. rmatch jsHexRx (after p (take i s), drop i s) = []" by blast
  have na: "n \<le> length a"
  proof (rule ccontr)
    assume "\<not> n \<le> length a"
    then have "length a < n" by simp
    with before have "rmatch jsHexRx (after p (take (length a) s), drop (length a) s) = []" by blast
    with less.prems here show False by simp
  qed
  from at have "(q, rest) \<in> set (rmatch jsHexRx (after p (take n s), drop n s))" by simp
  from jsHexRx_shape [OF this] obtain w where w: "drop n s = ''#'' @ w @ rest"
    and wh: "\<forall>c\<in>set w. is_hex c" by auto
  from w have "length (drop n s) = Suc (length w + length rest)" by simp
  then have len: "length rest < length s - n" by simp
  have fa: "findAll jsHexRx off (p, s) = (off + n, off + (length s - length rest))
      # findAll jsHexRx (off + (length s - length rest)) (q, rest)"
    unfolding findAll.simps [of jsHexRx off p s] sr using len by (simp del: findAll.simps)
  show ?case
  proof (cases "n = length a")
    case True
    with fa show ?thesis by (auto simp del: findAll.simps)
  next
    case False
    with na have lt: "n < length a" by simp
    with less.prems have d: "drop n s = drop n a @ ''#'' @ h @ r" by simp
    from lt obtain c a'' where da: "drop n a = c # a''" by (cases "drop n a") auto
    with d w have "w @ rest = a'' @ ''#'' @ (h @ r)" by simp
    from hex_run_stops [OF this wh] obtain a3 where a3: "a'' = w @ a3"
      and rest: "rest = a3 @ ''#'' @ h @ r" by auto
    from len have "length rest < length s" by simp
    from less.hyps [OF this rest, of "off + (length s - length rest)" q]
    obtain e where e: "(off + (length s - length rest) + length a3, e)
        \<in> set (findAll jsHexRx (off + (length s - length rest)) (q, rest))" by blast
    have "length (drop n a) = length a - n" by simp
    with da a3 have la: "length a = n + Suc (length w + length a3)" using lt by simp
    from less.prems rest have "length s - length rest = length a - length a3" by simp
    with la have "off + (length s - length rest) + length a3 = off + length a" by simp
    with e fa show ?thesis by (auto simp del: findAll.simps)
  qed
qed

lemma hex_context_loopI:
  "(st, e) \<in> set locs \<Longrightarrow> MatchString jsWordRegex (drop (st - 80) (take st t)) \<Longrightarrow>
     hex_context_loop locs t"
proof (induction locs)
  case Nil
  then show ?case by simp
next
  case (Cons loc locs)
  have w: "(if fst loc < 80 then 0 else fst loc - 80) = fst loc - 80" by simp
  from Cons show ?case
    unfolding hex_context_loop.simps Let_def w by auto
qed

section \<open>Structure validation\<close>

lemma bytes_Contains_iff: "bytes_Contains s sub \<longleftrightarrow> (\<exists>u v. s = u @ sub @ v)"
proof (induction s)
  case Nil
  then show ?case by auto
next
  case (Cons c cs)
  show ?case
  proof (cases "take (length sub) (c # cs) = sub")
    case True
    then have "c # cs = [] @ sub @ drop (length sub) (c # cs)"
      by (metis append_Nil append_take_drop_id)
    then show ?thesis using True by (simp del: append_Nil) blast
  next
    case False
    have "(\<exists>u v. c # cs = u @ sub @ v) \<longleftrightarrow> (\<exists>u v. cs = u @ sub @ v)"
    proof
      assume "\<exists>u v. c # cs = u @ sub @ v"
      then obtain u v where uv: "c # cs = u @ sub @ v" by blast
      show "\<exists>u v. cs = u @ sub @ v"
      proof (cases u)
        case Nil
        with uv have "take (length sub) (c # cs) = sub" by simp
        with False show ?thesis by simp
      next
        case (Cons a u')
        with uv have "cs = u' @ sub @ v" by simp
        then show ?thesis by blast
      qed
    next
      assume "\<exists>u v. cs = u @ sub @ v"
      then obtain u v where "cs = u @ sub @ v" by blast
      then have "c # cs = (c # u) @ sub @ v" by simp
      then show "\<exists>u v. c # cs = u @ sub @ v" by blast
    qed
    with False Cons.IH show ?thesis by simp
  qed
qed

text \<open>
  Claim C6. An empty buffer is rejected with \<open>ErrInvalidPDFStructure\<close>, and so is every
  buffer whose first min(1024, length) bytes do not contain the literal bytes \<^verbatim>\<open>%PDF-\<close>,
  whatever follows that prefix and whatever the detectors would say about the buffer.
\<close>

theorem Check_structure:
  "Check [] = Some ErrInvalidPDFStructure \<and>
   ((\<nexists>u v. take (min 1024 (length data)) data = u @ ''%PDF-'' @ v) \<longrightarrow>
      Check data = Some ErrInvalidPDFStructure)"
proof -
  have lim: "(if length data < 1024 then length data else 1024) = min 1024 (length data)"
    by simp
  show ?thesis
    unfolding Check_def Let_def lim bytes_Contains_iff by simp
qed

theorem Check_structure_witness:
  "(\<nexists>u v. take (min 1024 (length (replicate 1024 CHR ''A'' @ ''%PDF-/JavaScript'')))
             (replicate 1024 CHR ''A'' @ ''%PDF-/JavaScript'') = u @ ''%PDF-'' @ v) \<and>
   Check (replicate 1024 CHR ''A'' @ ''%PDF-/JavaScript'') = Some ErrInvalidPDFStructure"
proof -
  have t: "take (min 1024 (length (replicate 1024 CHR ''A'' @ ''%PDF-/JavaScript'')))
             (replicate 1024 CHR ''A'' @ ''%PDF-/JavaScript'') = replicate 1024 CHR ''A''"
    by simp
  have n: "\<nexists>u v. replicate 1024 CHR ''A'' = u @ ''%PDF-'' @ v"
  proof
    assume "\<exists>u v. replicate 1024 CHR ''A'' = u @ ''%PDF-'' @ v"
    then obtain u v where "replicate 1024 CHR ''A'' = u @ ''%PDF-'' @ v" by blast
    then have "CHR ''%'' \<in> set (replicate 1024 CHR ''A'')" by simp
    then show False by simp
  qed
  from n t have h: "\<nexists>u v. take (min 1024 (length (replicate 1024 CHR ''A'' @ ''%PDF-/JavaScript'')))
             (replicate 1024 CHR ''A'' @ ''%PDF-/JavaScript'') = u @ ''%PDF-'' @ v"
    by presburger
  from Check_structure [of "replicate 1024 CHR ''A'' @ ''%PDF-/JavaScript''"] h
  show ?thesis by blast
qed

section \<open>Form fields\<close>

text \<open>
  Claim C8. A buffer with a valid header that the script detector passes and that
  contains \<^verbatim>\<open>/FT/Tx\<close>, \<^verbatim>\<open>/FT/Ch\<close>, \<^verbatim>\<open>/FT/Btn\<close> or \<^verbatim>\<open>/FT/Sig\<close> is rejected with
  \<open>ErrFormDetected\<close>. The marker is looked for in the buffer as it is (streams
  included, whitespace not collapsed), in any letter case, with any run of whitespace
  after each slash and after \<^verbatim>\<open>FT\<close>.
\<close>

theorem forms_subtypes:
  assumes "bytes_Contains (take 1024 data) ''%PDF-''"
    and "checkForJavaScript data = None"
    and "data = a @ ''/'' @ w1 @ ft @ w2 @ ''/'' @ w3 @ ty @ b"
    and "\<forall>c\<in>set (w1 @ w2 @ w3). is_space c"
    and "ci_eq ft ''FT''"
    and "ci_eq ty ''Tx'' \<or> ci_eq ty ''Ch'' \<or> ci_eq ty ''Btn'' \<or> ci_eq ty ''Sig''"
  shows "Check data = Some ErrFormDetected"
proof -
  from assms(6) obtain lit where lit: "ci_eq ty lit"
    and mem: "cat [ci CHR ''/'', RStar sp, istr ''FT'', RStar sp, ci CHR ''/'', RStar sp, istr lit]
                \<in> set formPatternsRegex"
    unfolding formPatternsRegex_def by auto
  let ?rx = "cat [ci CHR ''/'', RStar sp, istr ''FT'', RStar sp, ci CHR ''/'', RStar sp, istr lit]"
  let ?p0 = "after None a"
  let ?r1 = "w1 @ ft @ w2 @ ''/'' @ w3 @ ty @ b"
  from assms(4) have s1: "\<forall>c\<in>set w1. is_space c" and s2: "\<forall>c\<in>set w2. is_space c"
    and s3: "\<forall>c\<in>set w3. is_space c" by auto
  have 1: "(Some CHR ''/'', ?r1) \<in> set (rmatch (ci CHR ''/'') (?p0, CHR ''/'' # ?r1))"
    by (rule fold_byteI) (simp add: case_tables)
  let ?p2 = "after (Some CHR ''/'') w1"
  have 2: "(?p2, ft @ w2 @ ''/'' @ w3 @ ty @ b) \<in> set (rmatch (RStar sp) (Some CHR ''/'', ?r1))"
    using s1 by (rule star_spaceI)
  let ?p3 = "after ?p2 ft"
  have 3: "(?p3, w2 @ ''/'' @ w3 @ ty @ b)
             \<in> set (rmatch (istr ''FT'') (?p2, ft @ w2 @ ''/'' @ w3 @ ty @ b))"
    using assms(5) by (rule istr_matchI)
  let ?p4 = "after ?p3 w2"
  have 4: "(?p4, ''/'' @ w3 @ ty @ b) \<in> set (rmatch (RStar sp) (?p3, w2 @ ''/'' @ w3 @ ty @ b))"
    using s2 by (rule star_spaceI)
  have 5: "(after (Some CHR ''/'') (w3 @ ty), b)
             \<in> set (rmatch (cat [ci CHR ''/'', RStar sp, istr lit]) (?p4, ''/'' @ w3 @ ty @ b))"
    using s3 lit by (rule slash_name_match)
  from cat_consI [OF 1 cat_consI [OF 2 cat_consI [OF 3 cat_consI [OF 4 5]]]]
  have "(after (Some CHR ''/'') (w3 @ ty), b) \<in> set (rmatch ?rx (after None a, CHR ''/'' # ?r1))"
    by simp
  then have "MatchString ?rx (a @ CHR ''/'' # ?r1)" by (rule MatchStringI)
  with assms(3) have "MatchString ?rx data" by simp
  with mem have "match_any formPatternsRegex data" by (rule match_anyI)
  then have "checkForForms data = Some ErrFormDetected" by (simp add: checkForForms_def)
  with Check_after_header [OF assms(1)] assms(2) show ?thesis by simp
qed

theorem forms_subtypes_witness:
  "checkForJavaScript ''%PDF-/ft / sig'' = None \<and> Check ''%PDF-/ft / sig'' = Some ErrFormDetected"
proof -
  have js: "checkForJavaScript ''%PDF-/ft / sig'' = None"
    by (simp add: check_defs pattern_defs match_defs)
  have "Check ''%PDF-/ft / sig'' = Some ErrFormDetected"
    by (rule forms_subtypes [where a = "''%PDF-''" and ?w1.0 = "[]" and ft = "''ft''"
          and ?w2.0 = "'' ''" and ?w3.0 = "'' ''" and ty = "''sig''" and b = "[]"])
       (simp_all add: js is_space_def space_chars_def ci_eq_def case_tables)
  with js show ?thesis by simp
qed

section \<open>Script markers\<close>

text \<open>
  Claim C2, as amended. Take a buffer with a valid header whose stream-stripped text
  contains a slash, then any run of whitespace (possibly none), then the name
  \<^verbatim>\<open>JavaScript\<close> or \<^verbatim>\<open>JS\<close> in any letter case: \<open>Check\<close> returns
  \<open>ErrJavaScriptDetected\<close>. Whitespace is tolerated between the slash and the name, not
  inside the name: collapsing turns a run of whitespace into one space and never removes
  it.
\<close>

theorem script_marker_detected:
  assumes "bytes_Contains (take 1024 data) ''%PDF-''"
    and "ReplaceAllString streamRx data '' '' = a @ ''/'' @ ws @ name @ b"
    and "\<forall>c\<in>set ws. is_space c"
    and "ci_eq name ''JavaScript'' \<or> ci_eq name ''JS''"
  shows "Check data = Some ErrJavaScriptDetected"
proof -
  from assms(4) obtain lit where lit: "ci_eq name lit"
    and cases: "lit = ''JavaScript'' \<or> lit = ''JS''"
    and mem: "cat [ci CHR ''/'', RStar sp, istr lit] \<in> set jsPatterns"
    unfolding jsPatterns_def by auto
  from lit cases have ne: "name \<noteq> []"
    by (auto dest: ci_eq_nonempty)
  from cases have "\<forall>c\<in>set lit. \<not> is_space c"
    by (auto simp: is_space_def space_chars_def)
  with lit have ns: "\<forall>x\<in>set name. \<not> is_space x"
    by (rule ci_eq_not_space)
  let ?ws = "if ws = [] then [] else '' ''"
  have sl: "\<not> is_space CHR ''/''" by (simp add: is_space_def space_chars_def)
  have "collapse (a @ CHR ''/'' # ws @ name @ b) = collapse a @ CHR ''/'' # collapse (ws @ name @ b)"
    using sl by (rule collapse_nonspace)
  also have "collapse (ws @ name @ b) = ?ws @ name @ collapse b"
    using assms(3) ne ns by (rule collapse_spaces_word)
  finally have norm: "collapse (ReplaceAllString streamRx data '' '')
      = collapse a @ ''/'' @ ?ws @ name @ collapse b"
    using assms(2) by simp
  have "\<forall>c\<in>set ?ws. is_space c" by (simp add: is_space_def space_chars_def)
  then have "(after (Some CHR ''/'') (?ws @ name), collapse b)
      \<in> set (rmatch (cat [ci CHR ''/'', RStar sp, istr lit])
               (after None (collapse a), ''/'' @ ?ws @ name @ collapse b))"
    using lit by (rule slash_name_match)
  then have "MatchString (cat [ci CHR ''/'', RStar sp, istr lit])
      (collapse a @ ''/'' @ ?ws @ name @ collapse b)"
    by (rule MatchStringI)
  with norm have "MatchString (cat [ci CHR ''/'', RStar sp, istr lit])
      (collapse (ReplaceAllString streamRx data '' ''))" by simp
  with mem have "checkForJavaScript data = Some ErrJavaScriptDetected"
    by (rule checkForJavaScript_pattern)
  with assms(1) show ?thesis by (rule Check_script)
qed

theorem script_marker_detected_witness:
  "Check ''%PDF-/\<newline> JAVAscript 1 0 R'' = Some ErrJavaScriptDetected"
  by (rule script_marker_detected [where a = "''%PDF-''" and ws = "''\<newline> ''"
        and name = "''JAVAscript''" and b = "'' 1 0 R''"])
     (simp_all add: check_defs pattern_defs match_defs class_tables ci_eq_def case_tables)

text \<open>
  The claim as stated fails for a name that whitespace splits: the newline inside
  \<^verbatim>\<open>JavaScript\<close> survives the collapsing as a space, and no pattern matches.
\<close>

theorem script_marker_counterexample:
  "Check ''%PDF-1.4 /Java\<newline>Script 1 0 R'' = None"
  by (simp add: check_defs pattern_defs match_defs)

section \<open>External references\<close>






section \<open>Order of the checks\<close>

text \<open>
  Claim C1. \<open>Check\<close> returns the first error in the fixed sequence structure check,
  script detector, form detector, external-reference detector, embedded-file detector,
  and returns it unchanged; each detector reports its own error kind only. Hence a
  buffer that passes the structure check and matches a script pattern (on the script
  detector's view of the text) is rejected with \<open>ErrJavaScriptDetected\<close>, whatever form,
  external-reference or embedded-file pattern it matches as well.
\<close>

theorem Check_priority:
  "Check data = first_error [structure_check data, checkForJavaScript data, checkForForms data,
       checkForExternalReferences data, checkForEmbeddedFiles data] \<and>
   (checkForJavaScript data = None \<or> checkForJavaScript data = Some ErrJavaScriptDetected) \<and>
   (checkForForms data = None \<or> checkForForms data = Some ErrFormDetected) \<and>
   (checkForExternalReferences data = None
      \<or> checkForExternalReferences data = Some ErrExternalRefDetected) \<and>
   (checkForEmbeddedFiles data = None
      \<or> checkForEmbeddedFiles data = Some ErrEmbeddedFileDetected) \<and>
   (structure_check data = None \<and>
    match_any jsPatterns
      (ReplaceAllString whitespaceRegex (ReplaceAllString streamRx data '' '') '' '') \<and>
    (match_any formPatternsRegex data
       \<or> match_any externalRegexes (ReplaceAllString whitespaceRegex data '' '')
       \<or> match_any embeddedFilesRegex data)
    \<longrightarrow> Check data = Some ErrJavaScriptDetected)"
proof -
  have "Check data = Some ErrJavaScriptDetected"
    if "structure_check data = None"
      and "match_any jsPatterns
        (ReplaceAllString whitespaceRegex (ReplaceAllString streamRx data '' '') '' '')"
  proof -
    from that(2) have "checkForJavaScript data = Some ErrJavaScriptDetected"
      unfolding checkForJavaScript_eq by simp
    with that(1) show ?thesis unfolding Check_first_error by simp
  qed
  with Check_first_error [of data] detector_kinds [of data] show ?thesis by blast
qed

theorem Check_priority_witness:
  "structure_check ''%PDF-/JS /AcroForm'' = None \<and>
   match_any jsPatterns (ReplaceAllString whitespaceRegex
      (ReplaceAllString streamRx ''%PDF-/JS /AcroForm'' '' '') '' '') \<and>
   match_any formPatternsRegex ''%PDF-/JS /AcroForm'' \<and>
   Check ''%PDF-/JS /AcroForm'' = Some ErrJavaScriptDetected"
proof -
  have 1: "structure_check ''%PDF-/JS /AcroForm'' = None"
    by (simp add: structure_check_def)
  have 2: "match_any jsPatterns (ReplaceAllString whitespaceRegex
      (ReplaceAllString streamRx ''%PDF-/JS /AcroForm'' '' '') '' '')"
    by (simp add: check_defs pattern_defs match_defs)
  have 3: "match_any formPatternsRegex ''%PDF-/JS /AcroForm''"
    by (simp add: check_defs pattern_defs match_defs)
  from Check_priority [of "''%PDF-/JS /AcroForm''"] 1 2 3 show ?thesis by blast
qed

section \<open>The angle-bracket heuristic of the script detector\<close>

text \<open>
  Claim C5. Suppose no script pattern matches the normalized text and the \<^verbatim>\<open>#\<close>-hex
  window heuristic does not fire. Then the script detector reports
  \<open>ErrJavaScriptDetected\<close> if the stream-stripped text contains \<^verbatim>\<open><\<close>, four or more hex
  digits and \<^verbatim>\<open>>\<close>, and also contains, anywhere, the token \<^verbatim>\<open>javascript\<close> or \<^verbatim>\<open>js\<close> under
  case folding; in every other case it passes. Any spelling of the token that differs
  from it in letter case only counts.
\<close>

theorem angle_heuristic:
  assumes "\<not> match_any jsPatterns
      (ReplaceAllString whitespaceRegex (ReplaceAllString streamRx content '' '') '' '')"
    and "\<not> hex_context_loop (FindAllStringIndex jsHexRx (ReplaceAllString streamRx content '' ''))
      (ReplaceAllString streamRx content '' '')"
  shows "checkForJavaScript content =
     (if (\<exists>a h b. ReplaceAllString streamRx content '' '' = a @ ''<'' @ h @ ''>'' @ b \<and>
            4 \<le> length h \<and> (\<forall>c\<in>set h. is_hex c)) \<and>
         (\<exists>u w v. ReplaceAllString streamRx content '' '' = u @ w @ v \<and>
            (fold_eq ''javascript'' w \<or> fold_eq ''js'' w))
      then Some ErrJavaScriptDetected else None) \<and>
     (\<forall>w. ci_eq w ''javascript'' \<longrightarrow> fold_eq ''javascript'' w) \<and>
     (\<forall>w. ci_eq w ''js'' \<longrightarrow> fold_eq ''js'' w)"
proof -
  from assms have "checkForJavaScript content =
     (if (\<exists>a h b. ReplaceAllString streamRx content '' '' = a @ ''<'' @ h @ ''>'' @ b \<and>
            4 \<le> length h \<and> (\<forall>c\<in>set h. is_hex c)) \<and>
         (\<exists>u w v. ReplaceAllString streamRx content '' '' = u @ w @ v \<and>
            (fold_eq ''javascript'' w \<or> fold_eq ''js'' w))
      then Some ErrJavaScriptDetected else None)"
    unfolding checkForJavaScript_eq angle_match_iff word_match_iff
    by (simp del: fold_eq.simps)
  with ci_eq_fold_eq show ?thesis by blast
qed

theorem angle_heuristic_witness:
  "checkForJavaScript ''%PDF-1.4 (Javascript) <48656C6C6F>'' = Some ErrJavaScriptDetected \<and>
   checkForJavaScript ''%PDF-1.4 (none) <48656C6C6F>'' = None \<and>
   checkForJavaScript ''%PDF-1.4 (Javascript) <486>'' = None"
proof -
  let ?d1 = "''%PDF-1.4 (Javascript) <48656C6C6F>''"
  let ?d2 = "''%PDF-1.4 (none) <48656C6C6F>''"
  let ?d3 = "''%PDF-1.4 (Javascript) <486>''"
  have t1: "ReplaceAllString streamRx ?d1 '' '' = ?d1"
    by (simp add: check_defs pattern_defs match_defs)
  have t2: "ReplaceAllString streamRx ?d2 '' '' = ?d2"
    by (simp add: check_defs pattern_defs match_defs)
  have t3: "ReplaceAllString streamRx ?d3 '' '' = ?d3"
    by (simp add: check_defs pattern_defs match_defs)
  have p1: "\<not> match_any jsPatterns (ReplaceAllString whitespaceRegex ?d1 '' '')"
    by (simp add: check_defs pattern_defs match_defs)
  have p2: "\<not> match_any jsPatterns (ReplaceAllString whitespaceRegex ?d2 '' '')"
    by (simp add: check_defs pattern_defs match_defs)
  have p3: "\<not> match_any jsPatterns (ReplaceAllString whitespaceRegex ?d3 '' '')"
    by (simp add: check_defs pattern_defs match_defs)
  have h1: "\<not> hex_context_loop (FindAllStringIndex jsHexRx ?d1) ?d1"
    by (simp add: check_defs pattern_defs match_defs)
  have h2: "\<not> hex_context_loop (FindAllStringIndex jsHexRx ?d2) ?d2"
    by (simp add: check_defs pattern_defs match_defs)
  have h3: "\<not> hex_context_loop (FindAllStringIndex jsHexRx ?d3) ?d3"
    by (simp add: check_defs pattern_defs match_defs)
  note i1 = angle_heuristic [of ?d1, unfolded t1, OF p1 h1]
  note i2 = angle_heuristic [of ?d2, unfolded t2, OF p2 h2]
  note i3 = angle_heuristic [of ?d3, unfolded t3, OF p3 h3]
  have a1: "?d1 = ''%PDF-1.4 (Javascript) '' @ ''<'' @ ''48656C6C6F'' @ ''>'' @ []
      \<and> 4 \<le> length ''48656C6C6F'' \<and> (\<forall>c\<in>set ''48656C6C6F''. is_hex c)"
    by (simp add: is_hex_def hex_chars_def)
  have "ci_eq ''Javascript'' ''javascript''" by (simp add: ci_eq_def case_tables)
  with i1 have "fold_eq ''javascript'' ''Javascript''" by blast
  moreover have "?d1 = ''%PDF-1.4 ('' @ ''Javascript'' @ '') <48656C6C6F>''" by simp
  ultimately have w1: "\<exists>u w v. ?d1 = u @ w @ v \<and> (fold_eq ''javascript'' w \<or> fold_eq ''js'' w)"
    by blast
  from a1 have "\<exists>a h b. ?d1 = a @ ''<'' @ h @ ''>'' @ b \<and> 4 \<le> length h \<and> (\<forall>c\<in>set h. is_hex c)"
    by blast
  with w1 i1 have r1: "checkForJavaScript ?d1 = Some ErrJavaScriptDetected"
    by (simp del: fold_eq.simps)
  have "\<not> MatchString jsWordRegex ?d2"
    by (simp add: check_defs pattern_defs match_defs)
  then have "\<not> (\<exists>u w v. ?d2 = u @ w @ v \<and> (fold_eq ''javascript'' w \<or> fold_eq ''js'' w))"
    unfolding word_match_iff .
  with i2 have r2: "checkForJavaScript ?d2 = None" by (simp del: fold_eq.simps)
  have "\<not> MatchString jsHexAngle ?d3"
    by (simp add: check_defs pattern_defs match_defs)
  then have "\<not> (\<exists>a h b. ?d3 = a @ ''<'' @ h @ ''>'' @ b \<and> 4 \<le> length h \<and> (\<forall>c\<in>set h. is_hex c))"
    unfolding angle_match_iff .
  with i3 have r3: "checkForJavaScript ?d3 = None" by (simp del: fold_eq.simps)
  from r1 r2 r3 show ?thesis by simp
qed

section \<open>Clean documents\<close>

text \<open>
  Claim C9. A buffer with a valid header on which no script, form, external-reference
  or embedded-file pattern matches (each on the view of the text its detector reads)
  and neither hex heuristic fires passes: \<open>Check\<close> returns no error. The minimal
  document above is such a buffer.
\<close>

theorem clean_document_passes:
  assumes "bytes_Contains (take 1024 data) ''%PDF-''"
    and "\<forall>rx\<in>set jsPatterns. \<not> MatchString rx
           (ReplaceAllString whitespaceRegex (ReplaceAllString streamRx data '' '') '' '')"
    and "\<not> hex_context_loop (FindAllStringIndex jsHexRx (ReplaceAllString streamRx data '' ''))
           (ReplaceAllString streamRx data '' '')"
    and "\<not> (MatchString jsHexAngle (ReplaceAllString streamRx data '' '')
            \<and> MatchString jsWordRegex (ReplaceAllString streamRx data '' ''))"
    and "\<forall>rx\<in>set formPatternsRegex. \<not> MatchString rx data"
    and "\<forall>rx\<in>set externalRegexes. \<not> MatchString rx (ReplaceAllString whitespaceRegex data '' '')"
    and "\<forall>rx\<in>set embeddedFilesRegex. \<not> MatchString rx data"
  shows "Check data = None"
proof -
  from assms(2,3,4) have "checkForJavaScript data = None"
    unfolding checkForJavaScript_eq match_any_iff by simp
  moreover from assms(5) have "checkForForms data = None"
    unfolding checkForForms_def match_any_iff by simp
  moreover from assms(6) have "checkForExternalReferences data = None"
    unfolding checkForExternalReferences_def Let_def match_any_iff by simp
  moreover from assms(7) have "checkForEmbeddedFiles data = None"
    unfolding checkForEmbeddedFiles_def match_any_iff by simp
  ultimately show ?thesis using Check_after_header [OF assms(1)] by simp
qed


lemma minimal_doc_stripped: "ReplaceAllString streamRx minimal_doc '' '' = minimal_doc"
  by (simp add: minimal_doc_def check_defs pattern_defs match_defs)

lemma minimal_doc_script:
  "\<forall>rx\<in>set jsPatterns. \<not> MatchString rx (ReplaceAllString whitespaceRegex minimal_doc '' '')"
  by (simp add: minimal_doc_def check_defs pattern_defs match_defs)

lemma minimal_doc_hex:
  "\<not> hex_context_loop (FindAllStringIndex jsHexRx minimal_doc) minimal_doc"
  by (simp add: minimal_doc_def check_defs pattern_defs match_defs)

lemma minimal_doc_angle: "\<not> MatchString jsHexAngle minimal_doc"
  by (simp add: minimal_doc_def check_defs pattern_defs match_defs)

lemma minimal_doc_forms: "\<forall>rx\<in>set formPatternsRegex. \<not> MatchString rx minimal_doc"
  by (simp add: minimal_doc_def check_defs pattern_defs match_defs)

lemma minimal_doc_external:
  "\<forall>rx\<in>set externalRegexes. \<not> MatchString rx (ReplaceAllString whitespaceRegex minimal_doc '' '')"
  by (simp add: minimal_doc_def check_defs pattern_defs match_defs)

lemma minimal_doc_embedded: "\<forall>rx\<in>set embeddedFilesRegex. \<not> MatchString rx minimal_doc"
  by (simp add: minimal_doc_def check_defs pattern_defs match_defs)

theorem clean_document_passes_witness: "Check minimal_doc = None"
proof (rule clean_document_passes)
  show "bytes_Contains (take 1024 minimal_doc) ''%PDF-''"
    by (simp add: minimal_doc_def)
qed (simp_all add: minimal_doc_stripped minimal_doc_script minimal_doc_hex minimal_doc_angle
       minimal_doc_forms minimal_doc_external minimal_doc_embedded)

section \<open>The scripting-vocabulary pattern has no word boundaries\<close>

text \<open>
  Claim C10. The scripting-vocabulary pattern matches \<^verbatim>\<open>js\<close> in any letter case wherever
  it occurs, also inside a longer word. There is a buffer with a valid header, an
  angle-bracket string of four hex digits and the word \<^verbatim>\<open>json\<close>, on which no pattern of
  any detector matches and the \<^verbatim>\<open>#\<close>-hex window heuristic does not fire, and which
  \<open>Check\<close> rejects with \<open>ErrJavaScriptDetected\<close>.
\<close>

theorem js_word_no_boundary:
  "(\<forall>u w v. ci_eq w ''js'' \<longrightarrow> MatchString jsWordRegex (u @ w @ v)) \<and>
   (\<exists>data a h b u v.
      bytes_Contains (take 1024 data) ''%PDF-'' \<and>
      data = a @ ''<'' @ h @ ''>'' @ b \<and> 4 \<le> length h \<and> (\<forall>c\<in>set h. is_hex c) \<and>
      data = u @ ''json'' @ v \<and>
      \<not> match_any jsPatterns
          (ReplaceAllString whitespaceRegex (ReplaceAllString streamRx data '' '') '' '') \<and>
      \<not> hex_context_loop (FindAllStringIndex jsHexRx (ReplaceAllString streamRx data '' ''))
          (ReplaceAllString streamRx data '' '') \<and>
      \<not> match_any formPatternsRegex data \<and>
      \<not> match_any externalRegexes (ReplaceAllString whitespaceRegex data '' '') \<and>
      \<not> match_any embeddedFilesRegex data \<and>
      Check data = Some ErrJavaScriptDetected)"
proof
  show "\<forall>u w v. ci_eq w ''js'' \<longrightarrow> MatchString jsWordRegex (u @ w @ v)"
    by (simp add: word_matchI)
  let ?d = "''%PDF-1.4 (json) <4142>''"
  have 0: "bytes_Contains (take 1024 ?d) ''%PDF-''" by simp
  have 1: "?d = ''%PDF-1.4 (json) '' @ ''<'' @ ''4142'' @ ''>'' @ []" by simp
  have 2: "4 \<le> length ''4142'' \<and> (\<forall>c\<in>set ''4142''. is_hex c)"
    by (simp add: is_hex_def hex_chars_def)
  have 3: "?d = ''%PDF-1.4 ('' @ ''json'' @ '') <4142>''" by simp
  have 4: "\<not> match_any jsPatterns
          (ReplaceAllString whitespaceRegex (ReplaceAllString streamRx ?d '' '') '' '')"
    by (simp add: check_defs pattern_defs match_defs)
  have 5: "\<not> hex_context_loop (FindAllStringIndex jsHexRx (ReplaceAllString streamRx ?d '' ''))
          (ReplaceAllString streamRx ?d '' '')"
    by (simp add: check_defs pattern_defs match_defs)
  have 6: "\<not> match_any formPatternsRegex ?d"
    by (simp add: check_defs pattern_defs match_defs)
  have 7: "\<not> match_any externalRegexes (ReplaceAllString whitespaceRegex ?d '' '')"
    by (simp add: check_defs pattern_defs match_defs)
  have 8: "\<not> match_any embeddedFilesRegex ?d"
    by (simp add: check_defs pattern_defs match_defs)
  have 9: "Check ?d = Some ErrJavaScriptDetected"
    by (simp add: check_defs pattern_defs match_defs)
  from 0 1 2 3 4 5 6 7 8 9
  show "\<exists>data a h b u v.
      bytes_Contains (take 1024 data) ''%PDF-'' \<and>
      data = a @ ''<'' @ h @ ''>'' @ b \<and> 4 \<le> length h \<and> (\<forall>c\<in>set h. is_hex c) \<and>
      data = u @ ''json'' @ v \<and>
      \<not> match_any jsPatterns
          (ReplaceAllString whitespaceRegex (ReplaceAllString streamRx data '' '') '' '') \<and>
      \<not> hex_context_loop (FindAllStringIndex jsHexRx (ReplaceAllString streamRx data '' ''))
          (ReplaceAllString streamRx data '' '') \<and>
      \<not> match_any formPatternsRegex data \<and>
      \<not> match_any externalRegexes (ReplaceAllString whitespaceRegex data '' '') \<and>
      \<not> match_any embeddedFilesRegex data \<and>
      Check data = Some ErrJavaScriptDetected"
    by blast
qed

theorem js_word_no_boundary_witness:
  "ci_eq ''Js'' ''js'' \<and> MatchString jsWordRegex ''(aJson)''"
proof -
  have c: "ci_eq ''Js'' ''js''" by (simp add: ci_eq_def case_tables)
  from js_word_no_boundary have "ci_eq ''Js'' ''js'' \<longrightarrow> MatchString jsWordRegex (''(a'' @ ''Js'' @ ''on)'')"
    by blast
  with c show ?thesis by simp
qed

section \<open>Stream exclusion\<close>



section \<open>The hex window heuristic\<close>

text \<open>
  Claim C4. Take a buffer with a valid header whose stream-stripped text contains
  \<^verbatim>\<open>#\<close> followed by a run of at least eight hex digits, and in which the token
  \<^verbatim>\<open>javascript\<close> or \<^verbatim>\<open>js\<close>, in any letter case, lies within the 80 bytes right before
  that \<^verbatim>\<open>#\<close>: \<open>Check\<close> returns \<open>ErrJavaScriptDetected\<close>. No \<^verbatim>\<open>/JavaScript\<close> marker is
  needed: in the example that follows the theorem no script pattern matches.
\<close>

theorem hex_window_detected:
  assumes "bytes_Contains (take 1024 data) ''%PDF-''"
    and "ReplaceAllString streamRx data '' '' = a @ ''#'' @ h @ b"
    and "8 \<le> length h" and "\<forall>c\<in>set h. is_hex c"
    and "drop (length a - 80) a = u @ w @ v"
    and "ci_eq w ''javascript'' \<or> ci_eq w ''js''"
  shows "Check data = Some ErrJavaScriptDetected"
proof -
  let ?t = "ReplaceAllString streamRx data '' ''"
  from assms(4) have h8: "\<forall>c\<in>set (take 8 h). is_hex c"
    by (meson in_set_takeD)
  from findAll_hex_covers [OF assms(2) assms(3) h8, of 0 None]
  obtain e where "(length a, e) \<in> set (FindAllStringIndex jsHexRx ?t)"
    unfolding FindAllStringIndex_def by (auto simp del: findAll.simps)
  moreover have "MatchString jsWordRegex (drop (length a - 80) (take (length a) ?t))"
    unfolding assms(2) using word_matchI [OF assms(6), of u v] assms(5) by simp
  ultimately have "hex_context_loop (FindAllStringIndex jsHexRx ?t) ?t"
    by (rule hex_context_loopI)
  then have "checkForJavaScript data = Some ErrJavaScriptDetected"
    unfolding checkForJavaScript_eq by simp
  with assms(1) show ?thesis by (rule Check_script)
qed

theorem hex_window_detected_witness:
  "\<not> match_any jsPatterns (ReplaceAllString whitespaceRegex
       (ReplaceAllString streamRx ''%PDF-1.4 (Js) #6170702E'' '' '') '' '') \<and>
   Check ''%PDF-1.4 (Js) #6170702E'' = Some ErrJavaScriptDetected"
proof -
  have n: "\<not> match_any jsPatterns (ReplaceAllString whitespaceRegex
       (ReplaceAllString streamRx ''%PDF-1.4 (Js) #6170702E'' '' '') '' '')"
    by (simp add: check_defs pattern_defs match_defs)
  have t: "ReplaceAllString streamRx ''%PDF-1.4 (Js) #6170702E'' '' ''
      = ''%PDF-1.4 (Js) '' @ ''#'' @ ''6170702E'' @ []"
    by (simp add: check_defs pattern_defs match_defs)
  have "Check ''%PDF-1.4 (Js) #6170702E'' = Some ErrJavaScriptDetected"
    by (rule hex_window_detected [OF _ t, where u = "''%PDF-1.4 (''" and w = "''Js''" and v = "'') ''"])
       (simp_all add: is_hex_def hex_chars_def ci_eq_def case_tables)
  with n show ?thesis by simp
qed

end
